theory Spec2Isabelle
  imports Main
begin

section \<open>The base worker of the Temporal Go SDK\<close>

text \<open>
  This theory embeds \<^verbatim>\<open>internal/internal_worker_base.go\<close>: the polling, dispatch and
  back-off engine behind every workflow and activity worker. The engine is a handful of
  goroutines (a fixed set of pollers, one dispatcher, one processor per task) that talk
  through two channels and a stop channel. The embedding is an interleaving semantics:
  every goroutine is a small control state, every blocking operation or call into a
  collaborator is one labelled event, and \<open>step\<close> computes the successor state of an
  event, so that a concrete schedule can be evaluated.
\<close>

subsection \<open>Poll retry policy\<close>

text \<open>
  \<^verbatim>\<open>time.Duration\<close> counts nanoseconds.
\<close>

definition Millisecond :: int where
  "Millisecond = 1000000"

definition Second :: int where
  "Second = 1000 * Millisecond"

definition retryPollOperationInitialInterval :: int where
  "retryPollOperationInitialInterval = 20 * Millisecond"

definition retryPollOperationMaxInterval :: int where
  "retryPollOperationMaxInterval = 10 * Second"

text \<open>
  Modelled from the spec: package \<^verbatim>\<open>internal/common/backoff\<close> (the exponential retry
  policy and the concurrent retrier) is not among the sources. The spec describes it as
  computing an exponential back-off delay from the consecutive-failure count, capped at
  the configured maximum interval, with an expiration horizon that \<^verbatim>\<open>NoInterval\<close>
  switches off; \<^verbatim>\<open>Failed()\<close> increments the count, \<^verbatim>\<open>Succeeded()\<close> resets it and
  \<^verbatim>\<open>Throttle()\<close> sleeps for the delay of the current count. The spec does not give the
  back-off coefficient, which is a parameter here. Durations are unbounded integers.
\<close>

record RetryPolicy =
  initialInterval :: int
  backoffCoefficient :: nat
  maximumInterval :: int
  expirationInterval :: int

definition NoInterval :: int where
  "NoInterval = 0"

datatype backoff = Expired | Delay int

definition NewExponentialRetryPolicy :: "nat \<Rightarrow> int \<Rightarrow> RetryPolicy" where
  "NewExponentialRetryPolicy coefficient initial =
     \<lparr>initialInterval = initial, backoffCoefficient = coefficient,
      maximumInterval = NoInterval, expirationInterval = NoInterval\<rparr>"

definition SetMaximumInterval :: "int \<Rightarrow> RetryPolicy \<Rightarrow> RetryPolicy" where
  "SetMaximumInterval d p = p\<lparr>maximumInterval := d\<rparr>"

definition SetExpirationInterval :: "int \<Rightarrow> RetryPolicy \<Rightarrow> RetryPolicy" where
  "SetExpirationInterval d p = p\<lparr>expirationInterval := d\<rparr>"

definition ComputeNextDelay :: "RetryPolicy \<Rightarrow> int \<Rightarrow> nat \<Rightarrow> backoff" where
  "ComputeNextDelay p elapsedTime numAttempts =
     (if expirationInterval p \<noteq> NoInterval \<and> elapsedTime > expirationInterval p then Expired
      else let nextInterval = initialInterval p * int (backoffCoefficient p) ^ numAttempts
           in if maximumInterval p \<noteq> NoInterval
              then Delay (min nextInterval (maximumInterval p))
              else Delay nextInterval)"

record ConcurrentRetrier =
  policy :: RetryPolicy
  failureCount :: nat

definition NewConcurrentRetrier :: "RetryPolicy \<Rightarrow> ConcurrentRetrier" where
  "NewConcurrentRetrier p = \<lparr>policy = p, failureCount = 0\<rparr>"

definition Failed :: "ConcurrentRetrier \<Rightarrow> ConcurrentRetrier" where
  "Failed r = r\<lparr>failureCount := failureCount r + 1\<rparr>"

definition Succeeded :: "ConcurrentRetrier \<Rightarrow> ConcurrentRetrier" where
  "Succeeded r = r\<lparr>failureCount := 0\<rparr>"

text \<open>The delay that \<^verbatim>\<open>Throttle()\<close> sleeps for, \<open>elapsedTime\<close> after the first failure.\<close>

definition Throttle :: "ConcurrentRetrier \<Rightarrow> int \<Rightarrow> backoff" where
  "Throttle r elapsedTime =
     (if failureCount r > 0 then ComputeNextDelay (policy r) elapsedTime (failureCount r - 1)
      else Delay 0)"

text \<open>
  \<^verbatim>\<open>createPollRetryPolicy\<close>, from the source: the initial interval, the maximum interval,
  and no expiration.
\<close>

definition createPollRetryPolicy :: "nat \<Rightarrow> RetryPolicy" where
  "createPollRetryPolicy coefficient =
     SetExpirationInterval NoInterval
       (SetMaximumInterval retryPollOperationMaxInterval
          (NewExponentialRetryPolicy coefficient retryPollOperationInitialInterval))"

text \<open>The retrier after \<open>n\<close> consecutive \<^verbatim>\<open>Failed()\<close> calls.\<close>

fun failures :: "nat \<Rightarrow> ConcurrentRetrier \<Rightarrow> ConcurrentRetrier" where
  "failures 0 r = r"
| "failures (Suc n) r = Failed (failures n r)"

subsection \<open>Configuration, goroutines and the worker's state\<close>

text \<open>
  Of \<^verbatim>\<open>baseWorkerOptions\<close> the engine's control flow reads the poller count, the poller
  rate, the concurrency bound and whether a user context cancel function is set. The task
  rate, the stop timeout, the labels and the task worker itself stand behind the events
  below: the outcome of a limiter wait, the expiry of the timeout and the results of
  \<^verbatim>\<open>PollTask\<close> and \<^verbatim>\<open>ProcessTask\<close> are chosen by the environment.
\<close>

record baseWorkerOptions =
  pollerCount :: int
  pollerRate :: int
  maxConcurrentTask :: int
  userContextCancel :: bool

type_synonym task = nat

text \<open>
  What travels on \<^verbatim>\<open>taskQueueCh\<close>: a \<^verbatim>\<open>*polledTask\<close> wrapping a polled task, or the
  value of another type that a local activity worker injects. \<open>isPolledTask\<close> is the type
  assertion \<^verbatim>\<open>task.(*polledTask)\<close>.
\<close>

datatype envelope = PolledTask task | LocalTask task

fun isPolledTask :: "envelope \<Rightarrow> bool" where
  "isPolledTask (PolledTask t) = True"
| "isPolledTask (LocalTask t) = False"

text \<open>
  Modelled from the spec: \<^verbatim>\<open>isServiceTransientError\<close> is not among the sources; the spec
  calls it an external predicate that classifies a poll failure as transient (service
  overloaded or unavailable) or not. An error value here is its class.
\<close>

datatype error = ServiceTransient | NonTransient

fun isServiceTransientError :: "error \<Rightarrow> bool" where
  "isServiceTransientError ServiceTransient = True"
| "isServiceTransientError NonTransient = False"

datatype chan = Open | Closed

datatype go_context = Active | Cancelled

text \<open>
  The control states of the goroutines. A poller runs \<^verbatim>\<open>runPoller\<close> and, inside it,
  \<^verbatim>\<open>pollTask\<close>; the dispatcher runs \<^verbatim>\<open>runTaskDispatcher\<close>; a processor runs
  \<^verbatim>\<open>processTask\<close>; the caller is the goroutine that calls \<^verbatim>\<open>Start\<close> and \<^verbatim>\<open>Stop\<close>.
\<close>

datatype poller =
    PollerStart           \<comment> \<open>spawned by \<^verbatim>\<open>Start\<close>, before the poller start counter\<close>
  | PollerSelect          \<comment> \<open>in the \<^verbatim>\<open>select\<close> on \<^verbatim>\<open>stopCh\<close> and \<^verbatim>\<open>pollerRequestCh\<close>\<close>
  | PollerThrottle        \<comment> \<open>holds a permit: session token, \<^verbatim>\<open>Throttle()\<close>, poll limiter wait\<close>
  | PollerReady           \<comment> \<open>past the poll limiter, before the call of \<^verbatim>\<open>PollTask()\<close>\<close>
  | PollerPolling         \<comment> \<open>inside \<^verbatim>\<open>PollTask()\<close>\<close>
  | PollerSend task       \<comment> \<open>in the \<^verbatim>\<open>select\<close> on the send to \<^verbatim>\<open>taskQueueCh\<close> and \<^verbatim>\<open>stopCh\<close>\<close>
  | PollerRearm           \<comment> \<open>no task: at the send to \<^verbatim>\<open>pollerRequestCh\<close>\<close>
  | PollerExit            \<comment> \<open>returned, \<^verbatim>\<open>stopWG.Done()\<close> has run\<close>

datatype dispatcher =
    DispPreload int       \<comment> \<open>in the pre-load loop with loop variable \<open>i\<close>\<close>
  | DispSelect            \<comment> \<open>in the \<^verbatim>\<open>select\<close> on \<^verbatim>\<open>stopCh\<close> and \<^verbatim>\<open>taskQueueCh\<close>\<close>
  | DispLimit task        \<comment> \<open>received a polled task: inside \<^verbatim>\<open>taskLimiter.Wait\<close>\<close>
  | DispExit              \<comment> \<open>returned, \<^verbatim>\<open>stopWG.Done()\<close> has run\<close>

datatype processor =
    ProcRun envelope      \<comment> \<open>spawned for the envelope: up to the end of \<^verbatim>\<open>ProcessTask\<close>\<close>
  | ProcRearm             \<comment> \<open>deferred function, at the send to \<^verbatim>\<open>pollerRequestCh\<close>\<close>
  | ProcExit              \<comment> \<open>returned, \<^verbatim>\<open>stopWG.Done()\<close> has run\<close>

datatype caller =
    CallerIdle            \<comment> \<open>not inside \<^verbatim>\<open>Start\<close> or \<^verbatim>\<open>Stop\<close>\<close>
  | StopCancelling        \<comment> \<open>in \<^verbatim>\<open>Stop\<close>, has closed \<^verbatim>\<open>stopCh\<close>\<close>
  | StopAwaiting          \<comment> \<open>in \<^verbatim>\<open>Stop\<close>, inside \<^verbatim>\<open>awaitWaitGroup\<close>\<close>

text \<open>
  The struct \<^verbatim>\<open>baseWorker\<close>, with the goroutines it has started. \<open>pollerRequestCh\<close> is
  the number of permits buffered in the channel of that name, whose capacity is
  \<open>maxConcurrentTask\<close>; \<^verbatim>\<open>taskQueueCh\<close> is unbuffered and holds nothing between events;
  \<open>pollLimiter\<close> tells whether the poll limiter is non-nil; \<open>stopWG\<close> is the counter of
  the wait group; the three counters are those of the metrics scope. A send to
  \<^verbatim>\<open>pollerRequestCh\<close> needs room in the buffer; with capacity zero there is no buffer
  and, by the invariants below, no sender either. \<^verbatim>\<open>Start\<close> and \<^verbatim>\<open>Stop\<close> are not
  synchronised in the source: they are called from one goroutine, the caller.
\<close>

record baseWorker =
  options :: baseWorkerOptions
  isWorkerStarted :: bool
  stopCh :: chan
  stopWG :: int
  pollLimiter :: bool
  limiterContext :: go_context
  userContext :: go_context
  retrier :: ConcurrentRetrier
  pollerRequestCh :: int
  workerStartCounter :: nat
  pollerStartCounter :: nat
  workerPanicCounter :: nat
  pollers :: "poller list"
  dispatcher :: "dispatcher option"
  processors :: "processor list"
  caller :: caller

text \<open>
  A step of the program blocks (the event cannot happen in this state), panics in the
  goroutine that takes it, or yields the next state.
\<close>

datatype go_panic = CloseOfClosedChannel | MakechanSizeOutOfRange

datatype 'a go = Blocked | Panic go_panic | Next 'a

text \<open>
  \<^verbatim>\<open>newBaseWorker\<close>. \<^verbatim>\<open>make(chan struct{}, n)\<close> panics for a negative \<open>n\<close>. The
  coefficient of the shared poll retry policy is the parameter \<open>c\<close>.
\<close>

definition newBaseWorker :: "nat \<Rightarrow> baseWorkerOptions \<Rightarrow> baseWorker go" where
  "newBaseWorker c opts =
     (if maxConcurrentTask opts < 0 then Panic MakechanSizeOutOfRange
      else Next \<lparr>options = opts, isWorkerStarted = False, stopCh = Open, stopWG = 0,
                 pollLimiter = (pollerRate opts > 0), limiterContext = Active,
                 userContext = Active,
                 retrier = NewConcurrentRetrier (createPollRetryPolicy c),
                 pollerRequestCh = 0, workerStartCounter = 0, pollerStartCounter = 0,
                 workerPanicCounter = 0, pollers = [], dispatcher = None, processors = [],
                 caller = CallerIdle\<rparr>)"

subsection \<open>Start and Stop\<close>

text \<open>
  \<^verbatim>\<open>Start\<close> returns at once when the worker is started. Otherwise it counts the start,
  spawns \<open>pollerCount\<close> pollers and the dispatcher, each registered with the wait group,
  and sets the flag.
\<close>

definition Start :: "baseWorker \<Rightarrow> baseWorker" where
  "Start bw =
     (if isWorkerStarted bw then bw
      else bw\<lparr>workerStartCounter := workerStartCounter bw + 1,
              pollers := pollers bw @ replicate (nat (pollerCount (options bw))) PollerStart,
              stopWG := stopWG bw + int (nat (pollerCount (options bw))) + 1,
              dispatcher := Some (DispPreload 0),
              isWorkerStarted := True\<rparr>)"

definition isStop :: "baseWorker \<Rightarrow> bool" where
  "isStop bw = (stopCh bw = Closed)"

text \<open>
  \<^verbatim>\<open>Stop\<close> up to its first blocking point: it returns at once when the worker was never
  started, and otherwise closes \<^verbatim>\<open>stopCh\<close>, which panics on a closed channel.
\<close>

definition Stop_close :: "baseWorker \<Rightarrow> baseWorker go" where
  "Stop_close bw =
     (if \<not> isWorkerStarted bw then Next bw
      else if stopCh bw = Closed then Panic CloseOfClosedChannel
      else Next (bw\<lparr>stopCh := Closed, caller := StopCancelling\<rparr>))"

definition Stop_cancel :: "baseWorker \<Rightarrow> baseWorker" where
  "Stop_cancel bw = bw\<lparr>limiterContext := Cancelled, caller := StopAwaiting\<rparr>"

text \<open>
  Modelled from the spec: \<^verbatim>\<open>awaitWaitGroup\<close> is not among the sources; the spec has
  \<^verbatim>\<open>Stop\<close> block until the completion tracker reaches zero or the stop timeout elapses,
  whichever is first. The first is the event \<open>StopAwaitDone\<close>, which needs a zero counter;
  the second is the event \<open>StopAwaitTimeout\<close>, which may happen at any moment of the wait.
  After either, \<^verbatim>\<open>Stop\<close> calls the user context cancel function if there is one.
\<close>

definition Stop_return :: "baseWorker \<Rightarrow> baseWorker" where
  "Stop_return bw =
     bw\<lparr>userContext := (if userContextCancel (options bw) then Cancelled else userContext bw),
        caller := CallerIdle\<rparr>"

subsection \<open>The steps of the goroutines\<close>

text \<open>
  How a call of \<^verbatim>\<open>ProcessTask\<close> ends: it returns an error or nil, or it panics with a
  value. \<open>recover\<close> is what \<^verbatim>\<open>recover()\<close> yields in the deferred function: nil when there
  was no panic and, in the Go versions before 1.21 that the repository is written for,
  also after \<^verbatim>\<open>panic(nil)\<close>.
\<close>

datatype panic_value = NilValue | NonNilValue

datatype process_result = Returned "error option" | Panicked panic_value

fun recover :: "process_result \<Rightarrow> panic_value option" where
  "recover (Returned err) = None"
| "recover (Panicked NilValue) = None"
| "recover (Panicked NonNilValue) = Some NonNilValue"


datatype event =
    CallStart
  | CallStop
  | StopCancelContext
  | StopAwaitDone
  | StopAwaitTimeout
  | PollerBegin nat
  | PollerTakePermit nat
  | PollerSeeStop nat
  | PollerPass nat
  | PollerInvoke nat
  | PollerLimiterErr nat
  | PollerPollReturn nat "task option" "error option"
  | PollerHandoff nat
  | PollerDrop nat
  | PollerRearmSend nat
  | DispPreloadSend
  | DispPreloadDone
  | DispSeeStop
  | DispLimiterOk
  | DispLimiterErr
  | InjectLocal task
  | ProcFinish nat process_result
  | ProcRearmSend nat

definition poller_at :: "baseWorker \<Rightarrow> nat \<Rightarrow> poller option" where
  "poller_at bw i = (if i < length (pollers bw) then Some (pollers bw ! i) else None)"

definition processor_at :: "baseWorker \<Rightarrow> nat \<Rightarrow> processor option" where
  "processor_at bw i = (if i < length (processors bw) then Some (processors bw ! i) else None)"

definition set_poller :: "nat \<Rightarrow> poller \<Rightarrow> baseWorker \<Rightarrow> baseWorker" where
  "set_poller i p bw = bw\<lparr>pollers := (pollers bw)[i := p]\<rparr>"

definition set_processor :: "nat \<Rightarrow> processor \<Rightarrow> baseWorker \<Rightarrow> baseWorker" where
  "set_processor i x bw = bw\<lparr>processors := (processors bw)[i := x]\<rparr>"

text \<open>\<^verbatim>\<open>bw.stopWG.Add(1); go bw.processTask(task)\<close>\<close>

definition spawn_processTask :: "envelope \<Rightarrow> baseWorker \<Rightarrow> baseWorker" where
  "spawn_processTask e bw =
     bw\<lparr>stopWG := stopWG bw + 1, processors := processors bw @ [ProcRun e]\<rparr>"

text \<open>
  \<^verbatim>\<open>pollTask\<close> after \<^verbatim>\<open>PollTask()\<close> has returned \<open>(task, err)\<close>: a transient error is
  reported to the retrier as a failure, everything else as a success; then a task goes to
  the send on \<^verbatim>\<open>taskQueueCh\<close> and no task to the send of the permit.
\<close>

definition pollTask_returned ::
  "nat \<Rightarrow> task option \<Rightarrow> error option \<Rightarrow> baseWorker \<Rightarrow> baseWorker" where
  "pollTask_returned i task err bw =
     (let bw' = bw\<lparr>retrier :=
                  (case err of
                     Some e \<Rightarrow> if isServiceTransientError e then Failed (retrier bw)
                               else Succeeded (retrier bw)
                   | None \<Rightarrow> Succeeded (retrier bw))\<rparr>
      in case task of
           Some t \<Rightarrow> set_poller i (PollerSend t) bw'
         | None \<Rightarrow> set_poller i PollerRearm bw')"

text \<open>
  \<^verbatim>\<open>processTask\<close> once \<^verbatim>\<open>ProcessTask\<close> has returned or panicked: the deferred function
  recovers a panic and counts it if \<^verbatim>\<open>recover()\<close> is not nil, then a polled task goes to
  the send of its permit and any other task lets the goroutine return.
\<close>

definition processTask_deferred ::
  "nat \<Rightarrow> envelope \<Rightarrow> process_result \<Rightarrow> baseWorker \<Rightarrow> baseWorker" where
  "processTask_deferred i e r bw =
     (let bw' = (case recover r of
                   Some p \<Rightarrow> bw\<lparr>workerPanicCounter := workerPanicCounter bw + 1\<rparr>
                 | None \<Rightarrow> bw)
      in if isPolledTask e then set_processor i ProcRearm bw'
         else (set_processor i ProcExit bw')\<lparr>stopWG := stopWG bw' - 1\<rparr>)"

text \<open>
  One event each. A \<^verbatim>\<open>select\<close> with several ready cases may take any of them, so a
  poller may take a permit, and the dispatcher a task, while \<^verbatim>\<open>stopCh\<close> is closed.
  A limiter wait returns nil only while the limiter context is active; it may return an
  error at any time. In \<^verbatim>\<open>pollTask\<close> the poll limiter is passed in one event, and
  \<^verbatim>\<open>PollTask()\<close> is called in the next: nothing in between looks at the stop channel
  or at the limiter context.
\<close>

fun step :: "event \<Rightarrow> baseWorker \<Rightarrow> baseWorker go" where
  "step CallStart bw =
     (if caller bw = CallerIdle then Next (Start bw) else Blocked)"
| "step CallStop bw =
     (if caller bw = CallerIdle then Stop_close bw else Blocked)"
| "step StopCancelContext bw =
     (if caller bw = StopCancelling then Next (Stop_cancel bw) else Blocked)"
| "step StopAwaitDone bw =
     (if caller bw = StopAwaiting \<and> stopWG bw = 0 then Next (Stop_return bw) else Blocked)"
| "step StopAwaitTimeout bw =
     (if caller bw = StopAwaiting then Next (Stop_return bw) else Blocked)"
| "step (PollerBegin i) bw =
     (if poller_at bw i = Some PollerStart
      then Next (set_poller i PollerSelect
                   (bw\<lparr>pollerStartCounter := pollerStartCounter bw + 1\<rparr>))
      else Blocked)"
| "step (PollerTakePermit i) bw =
     (if poller_at bw i = Some PollerSelect \<and> 0 < pollerRequestCh bw
      then Next (set_poller i PollerThrottle (bw\<lparr>pollerRequestCh := pollerRequestCh bw - 1\<rparr>))
      else Blocked)"
| "step (PollerSeeStop i) bw =
     (if poller_at bw i = Some PollerSelect \<and> isStop bw
      then Next (set_poller i PollerExit (bw\<lparr>stopWG := stopWG bw - 1\<rparr>))
      else Blocked)"
| "step (PollerPass i) bw =
     (if poller_at bw i = Some PollerThrottle
         \<and> (\<not> pollLimiter bw \<or> limiterContext bw \<noteq> Cancelled)
      then Next (set_poller i PollerReady bw)
      else Blocked)"
| "step (PollerInvoke i) bw =
     (if poller_at bw i = Some PollerReady
      then Next (set_poller i PollerPolling bw)
      else Blocked)"
| "step (PollerLimiterErr i) bw =
     (if poller_at bw i = Some PollerThrottle \<and> pollLimiter bw
      then Next (set_poller i PollerRearm bw)
      else Blocked)"
| "step (PollerPollReturn i task err) bw =
     (if poller_at bw i = Some PollerPolling
      then Next (pollTask_returned i task err bw)
      else Blocked)"
| "step (PollerHandoff i) bw =
     (case poller_at bw i of
        Some (PollerSend t) \<Rightarrow>
          if dispatcher bw = Some DispSelect
          then Next (set_poller i PollerSelect (bw\<lparr>dispatcher := Some (DispLimit t)\<rparr>))
          else Blocked
      | _ \<Rightarrow> Blocked)"
| "step (PollerDrop i) bw =
     (case poller_at bw i of
        Some (PollerSend t) \<Rightarrow>
          if isStop bw then Next (set_poller i PollerSelect bw) else Blocked
      | _ \<Rightarrow> Blocked)"
| "step (PollerRearmSend i) bw =
     (if poller_at bw i = Some PollerRearm
         \<and> pollerRequestCh bw < maxConcurrentTask (options bw)
      then Next (set_poller i PollerSelect (bw\<lparr>pollerRequestCh := pollerRequestCh bw + 1\<rparr>))
      else Blocked)"
| "step DispPreloadSend bw =
     (case dispatcher bw of
        Some (DispPreload i) \<Rightarrow>
          if i < maxConcurrentTask (options bw)
             \<and> pollerRequestCh bw < maxConcurrentTask (options bw)
          then Next (bw\<lparr>pollerRequestCh := pollerRequestCh bw + 1,
                        dispatcher := Some (DispPreload (i + 1))\<rparr>)
          else Blocked
      | _ \<Rightarrow> Blocked)"
| "step DispPreloadDone bw =
     (case dispatcher bw of
        Some (DispPreload i) \<Rightarrow>
          if i < maxConcurrentTask (options bw) then Blocked
          else Next (bw\<lparr>dispatcher := Some DispSelect\<rparr>)
      | _ \<Rightarrow> Blocked)"
| "step DispSeeStop bw =
     (if dispatcher bw = Some DispSelect \<and> isStop bw
      then Next (bw\<lparr>dispatcher := Some DispExit, stopWG := stopWG bw - 1\<rparr>)
      else Blocked)"
| "step DispLimiterOk bw =
     (case dispatcher bw of
        Some (DispLimit t) \<Rightarrow>
          if limiterContext bw \<noteq> Cancelled
          then Next (spawn_processTask (PolledTask t) (bw\<lparr>dispatcher := Some DispSelect\<rparr>))
          else Blocked
      | _ \<Rightarrow> Blocked)"
| "step DispLimiterErr bw =
     (case dispatcher bw of
        Some (DispLimit t) \<Rightarrow>
          if isStop bw
          then Next (bw\<lparr>dispatcher := Some DispExit, stopWG := stopWG bw - 1\<rparr>)
          else Next (spawn_processTask (PolledTask t) (bw\<lparr>dispatcher := Some DispSelect\<rparr>))
      | _ \<Rightarrow> Blocked)"
| "step (InjectLocal t) bw =
     (if dispatcher bw = Some DispSelect
      then Next (spawn_processTask (LocalTask t) bw)
      else Blocked)"
| "step (ProcFinish i r) bw =
     (case processor_at bw i of
        Some (ProcRun e) \<Rightarrow> Next (processTask_deferred i e r bw)
      | _ \<Rightarrow> Blocked)"
| "step (ProcRearmSend i) bw =
     (if processor_at bw i = Some ProcRearm
         \<and> pollerRequestCh bw < maxConcurrentTask (options bw)
      then Next (set_processor i ProcExit
                   (bw\<lparr>pollerRequestCh := pollerRequestCh bw + 1, stopWG := stopWG bw - 1\<rparr>))
      else Blocked)"

text \<open>A schedule is a list of events; it runs as long as every event can happen.\<close>

fun run :: "baseWorker \<Rightarrow> event list \<Rightarrow> baseWorker go" where
  "run bw [] = Next bw"
| "run bw (e # es) =
     (case step e bw of
        Next bw' \<Rightarrow> run bw' es
      | Panic p \<Rightarrow> Panic p
      | Blocked \<Rightarrow> Blocked)"

definition execute :: "nat \<Rightarrow> baseWorkerOptions \<Rightarrow> event list \<Rightarrow> baseWorker go" where
  "execute c opts es =
     (case newBaseWorker c opts of
        Next bw \<Rightarrow> run bw es
      | Panic p \<Rightarrow> Panic p
      | Blocked \<Rightarrow> Blocked)"

subsection \<open>Permits, live goroutines and the invariants of the engine\<close>

text \<open>
  A permit is either buffered in \<^verbatim>\<open>pollerRequestCh\<close> or checked out: held by a poller
  from the moment it receives it to the moment it sends it back or hands its task over,
  by the dispatcher while it holds a polled task, by a processor of a polled task until
  it has sent the permit back.
\<close>

fun held_poller :: "poller \<Rightarrow> int" where
  "held_poller PollerThrottle = 1"
| "held_poller PollerReady = 1"
| "held_poller PollerPolling = 1"
| "held_poller (PollerSend t) = 1"
| "held_poller PollerRearm = 1"
| "held_poller PollerStart = 0"
| "held_poller PollerSelect = 0"
| "held_poller PollerExit = 0"

fun held_dispatcher :: "dispatcher option \<Rightarrow> int" where
  "held_dispatcher (Some (DispLimit t)) = 1"
| "held_dispatcher _ = 0"

fun held_processor :: "processor \<Rightarrow> int" where
  "held_processor (ProcRun e) = (if isPolledTask e then 1 else 0)"
| "held_processor ProcRearm = 1"
| "held_processor ProcExit = 0"

definition checked_out :: "baseWorker \<Rightarrow> int" where
  "checked_out bw =
     sum_list (map held_poller (pollers bw)) + held_dispatcher (dispatcher bw)
       + sum_list (map held_processor (processors bw))"

definition in_circulation :: "baseWorker \<Rightarrow> int" where
  "in_circulation bw = pollerRequestCh bw + checked_out bw"

text \<open>The number of permits that the pre-load loop has sent so far.\<close>

definition preloaded :: "baseWorker \<Rightarrow> int" where
  "preloaded bw =
     (case dispatcher bw of
        None \<Rightarrow> 0
      | Some (DispPreload i) \<Rightarrow> i
      | Some _ \<Rightarrow> maxConcurrentTask (options bw))"

definition preload_done :: "baseWorker \<Rightarrow> bool" where
  "preload_done bw =
     (case dispatcher bw of
        None \<Rightarrow> False
      | Some (DispPreload i) \<Rightarrow> False
      | Some _ \<Rightarrow> True)"

definition permits_inv :: "baseWorker \<Rightarrow> bool" where
  "permits_inv bw \<longleftrightarrow>
     0 \<le> pollerRequestCh bw \<and> 0 \<le> preloaded bw
     \<and> preloaded bw \<le> maxConcurrentTask (options bw)
     \<and> in_circulation bw \<le> preloaded bw
     \<and> (stopCh bw \<noteq> Closed \<longrightarrow> in_circulation bw = preloaded bw)"

definition lifecycle_inv :: "baseWorker \<Rightarrow> bool" where
  "lifecycle_inv bw \<longleftrightarrow>
     (isWorkerStarted bw \<longrightarrow>
        dispatcher bw \<noteq> None \<and> length (pollers bw) = nat (pollerCount (options bw)))
     \<and> (\<not> isWorkerStarted bw \<longrightarrow>
        dispatcher bw = None \<and> pollers bw = [] \<and> processors bw = []
        \<and> pollerRequestCh bw = 0 \<and> stopWG bw = 0 \<and> stopCh bw \<noteq> Closed)
     \<and> 0 \<le> maxConcurrentTask (options bw)
     \<and> (caller bw \<noteq> CallerIdle \<longrightarrow> stopCh bw = Closed)
     \<and> (stopCh bw = Closed \<longrightarrow>
          (limiterContext bw = Cancelled \<longleftrightarrow> caller bw \<noteq> StopCancelling))
     \<and> (stopCh bw \<noteq> Closed \<longrightarrow> limiterContext bw \<noteq> Cancelled)"

text \<open>The goroutines that have not returned; the wait group counts exactly these.\<close>

fun live_poller :: "poller \<Rightarrow> int" where
  "live_poller PollerExit = 0"
| "live_poller _ = 1"

fun live_dispatcher :: "dispatcher option \<Rightarrow> int" where
  "live_dispatcher None = 0"
| "live_dispatcher (Some DispExit) = 0"
| "live_dispatcher (Some _) = 1"

fun live_processor :: "processor \<Rightarrow> int" where
  "live_processor ProcExit = 0"
| "live_processor _ = 1"

definition live :: "baseWorker \<Rightarrow> int" where
  "live bw =
     sum_list (map live_poller (pollers bw)) + live_dispatcher (dispatcher bw)
       + sum_list (map live_processor (processors bw))"

definition wg_inv :: "baseWorker \<Rightarrow> bool" where
  "wg_inv bw \<longleftrightarrow> stopWG bw = live bw"

definition engine_inv :: "baseWorker \<Rightarrow> bool" where
  "engine_inv bw \<longleftrightarrow> lifecycle_inv bw \<and> permits_inv bw \<and> wg_inv bw"

text \<open>A property of the state after a step, where the step yields one.\<close>

definition holds_next :: "(baseWorker \<Rightarrow> bool) \<Rightarrow> baseWorker go \<Rightarrow> bool" where
  "holds_next P r = (case r of Next bw' \<Rightarrow> P bw' | Panic p \<Rightarrow> True | Blocked \<Rightarrow> True)"

text \<open>What an observer reads off the state that a schedule leads to.\<close>

definition observe :: "(baseWorker \<Rightarrow> 'a) \<Rightarrow> baseWorker go \<Rightarrow> 'a option" where
  "observe f r = (case r of Next bw \<Rightarrow> Some (f bw) | Panic p \<Rightarrow> None | Blocked \<Rightarrow> None)"

text \<open>
  The events in which \<^verbatim>\<open>ProcessTask\<close> panics, and those among them in which it panics
  with a value that is not nil.
\<close>

fun panicked :: "event \<Rightarrow> bool" where
  "panicked (ProcFinish i (Panicked v)) = True"
| "panicked _ = False"

fun panicked_non_nil :: "event \<Rightarrow> bool" where
  "panicked_non_nil (ProcFinish i (Panicked NonNilValue)) = True"
| "panicked_non_nil _ = False"

text \<open>
  The events in which a poller calls \<^verbatim>\<open>PollTask()\<close>, and the pollers that are past the
  poll limiter and about to call it.
\<close>

fun invokes :: "event \<Rightarrow> bool" where
  "invokes (PollerInvoke i) = True"
| "invokes _ = False"

fun ready_poller :: "poller \<Rightarrow> int" where
  "ready_poller PollerReady = 1"
| "ready_poller _ = 0"

definition ready_pollers :: "baseWorker \<Rightarrow> int" where
  "ready_pollers bw = sum_list (map ready_poller (pollers bw))"

text \<open>
  The polled tasks that have left the task source and for which no processor has been
  spawned yet: those that pollers hold at the send to \<^verbatim>\<open>taskQueueCh\<close> and the one that
  the dispatcher holds in the task limiter.
\<close>

fun pending_poller :: "poller \<Rightarrow> int" where
  "pending_poller (PollerSend t) = 1"
| "pending_poller _ = 0"

definition polled_pending :: "baseWorker \<Rightarrow> int" where
  "polled_pending bw =
     sum_list (map pending_poller (pollers bw)) + held_dispatcher (dispatcher bw)"

subsection \<open>Example configurations and schedules\<close>

definition one_poller :: "int \<Rightarrow> baseWorkerOptions" where
  "one_poller n =
     \<lparr>pollerCount = 1, pollerRate = 0, maxConcurrentTask = n, userContextCancel = False\<rparr>"

definition rate_limited_poller :: baseWorkerOptions where
  "rate_limited_poller =
     \<lparr>pollerCount = 1, pollerRate = 1, maxConcurrentTask = 1, userContextCancel = True\<rparr>"

text \<open>The worker starts, the dispatcher pre-loads one permit and the poller takes it.\<close>

definition permit_taken :: "event list" where
  "permit_taken =
     [CallStart, PollerBegin 0, DispPreloadSend, DispPreloadDone, PollerTakePermit 0]"

text \<open>Then the poller polls and receives task 7.\<close>

definition polled_one :: "event list" where
  "polled_one =
     permit_taken @ [PollerPass 0, PollerInvoke 0, PollerPollReturn 0 (Some 7) None]"

text \<open>Then the dispatcher accepts the task and spawns its processor.\<close>

definition processing_one :: "event list" where
  "processing_one = polled_one @ [PollerHandoff 0, DispLimiterOk]"

text \<open>
  With two permits: the poller hands task 7 to the dispatcher, which waits on the task
  limiter, and polls again, receiving task 8.
\<close>

definition two_polled :: "event list" where
  "two_polled =
     [CallStart, PollerBegin 0, DispPreloadSend, DispPreloadSend, DispPreloadDone,
      PollerTakePermit 0, PollerPass 0, PollerInvoke 0, PollerPollReturn 0 (Some 7) None,
      PollerHandoff 0,
      PollerTakePermit 0, PollerPass 0, PollerInvoke 0, PollerPollReturn 0 (Some 8) None]"

text \<open>
  The worker starts and is stopped at once: \<^verbatim>\<open>Stop\<close> closes the stop channel and cancels
  the limiter context, the poller and the dispatcher see the stop signal and return; then
  the wait group is at zero and \<^verbatim>\<open>Stop\<close> returns.
\<close>

definition stopping_one :: "event list" where
  "stopping_one =
     [CallStart, PollerBegin 0, DispPreloadSend, DispPreloadDone, CallStop, StopCancelContext,
      PollerSeeStop 0, DispSeeStop]"

definition graceful_stop :: "event list" where
  "graceful_stop = stopping_one @ [StopAwaitDone]"

text \<open>
  Task 7 is processed and its permit returned; then \<^verbatim>\<open>Stop\<close> is called, and the poller
  and the dispatcher see the stop signal and return.
\<close>

definition processed_then_stopping :: "event list" where
  "processed_then_stopping =
     processing_one @ [ProcFinish 0 (Returned None), ProcRearmSend 0, CallStop,
                       StopCancelContext, PollerSeeStop 0, DispSeeStop]"

subsection \<open>Properties of the poll retry policy\<close>

lemma failureCount_failures: "failureCount (failures n r) = failureCount r + n"
  by (induction n) (simp_all add: Failed_def)

lemma policy_failures: "policy (failures n r) = policy r"
  by (induction n) (simp_all add: Failed_def)

lemma Throttle_poll_policy:
  "Throttle (failures (Suc n) (NewConcurrentRetrier (createPollRetryPolicy c))) t =
     Delay (min (retryPollOperationInitialInterval * int c ^ n) retryPollOperationMaxInterval)"
  by (simp add: Throttle_def failureCount_failures policy_failures Failed_def
      NewConcurrentRetrier_def createPollRetryPolicy_def SetExpirationInterval_def
      SetMaximumInterval_def NewExponentialRetryPolicy_def ComputeNextDelay_def NoInterval_def
      retryPollOperationMaxInterval_def Second_def Millisecond_def)

lemma Throttle_after_reset:
  "Throttle (Failed (Succeeded (failures n (NewConcurrentRetrier (createPollRetryPolicy c))))) t =
     Delay retryPollOperationInitialInterval"
  by (simp add: Throttle_def policy_failures Failed_def Succeeded_def
      NewConcurrentRetrier_def createPollRetryPolicy_def SetExpirationInterval_def
      SetMaximumInterval_def NewExponentialRetryPolicy_def ComputeNextDelay_def NoInterval_def
      retryPollOperationMaxInterval_def retryPollOperationInitialInterval_def
      Second_def Millisecond_def)

lemma growing_interval:
  assumes "1 \<le> c"
  shows "retryPollOperationInitialInterval * int c ^ n
           \<le> retryPollOperationInitialInterval * int c ^ Suc n"
proof -
  have "(1::int) \<le> int c" using assms by simp
  then have "int c ^ n \<le> int c ^ Suc n"
    by (rule power_increasing[OF le_SucI[OF order_refl]])
  moreover have "0 \<le> retryPollOperationInitialInterval"
    by (simp add: retryPollOperationInitialInterval_def Millisecond_def)
  ultimately show ?thesis
    by (rule mult_left_mono)
qed

text \<open>
  C6. With the poll retry policy and any back-off coefficient of at least one, the delays
  after consecutive \<^verbatim>\<open>Failed()\<close> calls start at the initial interval of 20ms, never
  decrease from one failure to the next, never exceed the maximum interval of 10s and are
  never the expired state; one \<^verbatim>\<open>Succeeded()\<close> after any number of failures brings the
  delay of the next failure back to the initial interval.
\<close>

theorem poll_backoff_monotone_capped_reset:
  assumes c: "1 \<le> c"
  defines "r0 \<equiv> NewConcurrentRetrier (createPollRetryPolicy c)"
  shows "Throttle (failures (Suc 0) r0) t = Delay (20 * Millisecond)
       \<and> (\<exists>d d'. Throttle (failures (Suc n) r0) t = Delay d
              \<and> Throttle (failures (Suc (Suc n)) r0) t' = Delay d'
              \<and> d \<le> d' \<and> d \<le> 10 * Second)
       \<and> Throttle (failures (Suc n) r0) t \<noteq> Expired
       \<and> Throttle (Failed (Succeeded (failures n r0))) t = Delay (20 * Millisecond)"
proof -
  let ?d = "\<lambda>k. min (retryPollOperationInitialInterval * int c ^ k) retryPollOperationMaxInterval"
  have first: "Throttle (failures (Suc 0) r0) t = Delay (20 * Millisecond)"
    unfolding r0_def Throttle_poll_policy
    by (simp add: retryPollOperationInitialInterval_def retryPollOperationMaxInterval_def
        Second_def Millisecond_def)
  have mono: "?d n \<le> ?d (Suc n)"
    using growing_interval[OF c, of n] by (simp add: min_def)
  have cap: "?d n \<le> 10 * Second"
    by (simp add: retryPollOperationMaxInterval_def)
  have step: "\<exists>d d'. Throttle (failures (Suc n) r0) t = Delay d
              \<and> Throttle (failures (Suc (Suc n)) r0) t' = Delay d'
              \<and> d \<le> d' \<and> d \<le> 10 * Second"
    unfolding r0_def Throttle_poll_policy using mono cap by blast
  have alive: "Throttle (failures (Suc n) r0) t \<noteq> Expired"
    unfolding r0_def Throttle_poll_policy by simp
  have reset: "Throttle (Failed (Succeeded (failures n r0))) t = Delay (20 * Millisecond)"
    unfolding r0_def Throttle_after_reset
    by (simp add: retryPollOperationInitialInterval_def)
  from first step alive reset show ?thesis by blast
qed

theorem poll_backoff_monotone_capped_reset_witness:
  "(1::nat) \<le> 2
   \<and> Throttle (failures (Suc 0) (NewConcurrentRetrier (createPollRetryPolicy 2))) 0
       = Delay (20 * Millisecond)
   \<and> Throttle (failures (Suc 9) (NewConcurrentRetrier (createPollRetryPolicy 2))) 0 \<noteq> Expired
   \<and> Throttle (Failed (Succeeded (failures 9 (NewConcurrentRetrier (createPollRetryPolicy 2))))) 0
       = Delay (20 * Millisecond)"
  using poll_backoff_monotone_capped_reset[of 2 0 9 0] by simp


subsection \<open>The invariants hold in every reachable state\<close>

lemma sum_list_map_update:
  fixes f :: "'a \<Rightarrow> int"
  shows "i < length xs \<Longrightarrow>
    sum_list (map f (xs[i := y])) = sum_list (map f xs) - f (xs ! i) + f y"
  by (induction xs arbitrary: i) (auto split: nat.splits)

lemma sum_list_replicate_int: "sum_list (replicate n (k::int)) = int n * k"
  by (induction n) (simp_all add: algebra_simps)

lemma poller_at_Some [simp]:
  "poller_at bw i = Some p \<longleftrightarrow> i < length (pollers bw) \<and> pollers bw ! i = p"
  by (auto simp: poller_at_def)

lemma processor_at_Some [simp]:
  "processor_at bw i = Some p \<longleftrightarrow> i < length (processors bw) \<and> processors bw ! i = p"
  by (auto simp: processor_at_def)

lemma holds_next_simps [simp]:
  "holds_next P (Next bw') = P bw'"
  "holds_next P (Panic p) = True"
  "holds_next P Blocked = True"
  by (simp_all add: holds_next_def)

lemmas step_defs = set_poller_def set_processor_def spawn_processTask_def Start_def
  Stop_close_def Stop_cancel_def Stop_return_def pollTask_returned_def
  processTask_deferred_def isStop_def Let_def

lemmas state_splits = option.splits poller.splits dispatcher.splits processor.splits
  process_result.splits panic_value.splits

lemma lifecycle_inv_step:
  assumes "lifecycle_inv bw"
  shows "holds_next lifecycle_inv (step e bw)"
  using assms
  apply (cases e)
  apply (simp_all add: lifecycle_inv_def step_defs split: state_splits)
  apply auto
  done

lemma permits_inv_step:
  assumes "lifecycle_inv bw" and "permits_inv bw"
  shows "holds_next permits_inv (step e bw)"
  using assms
  apply (cases e)
  apply (simp_all add: lifecycle_inv_def permits_inv_def in_circulation_def checked_out_def
      preloaded_def sum_list_map_update sum_list_replicate_int step_defs split: state_splits)
  apply auto
  done

lemma wg_inv_step:
  assumes "lifecycle_inv bw" and "wg_inv bw"
  shows "holds_next wg_inv (step e bw)"
  using assms
  apply (cases e)
  apply (simp_all add: lifecycle_inv_def wg_inv_def live_def sum_list_map_update
      sum_list_replicate_int step_defs split: state_splits)
  done

lemma engine_inv_step:
  assumes "engine_inv bw" and "step e bw = Next bw'"
  shows "engine_inv bw'"
  using assms lifecycle_inv_step[of bw e] permits_inv_step[of bw e] wg_inv_step[of bw e]
  by (simp add: engine_inv_def)

lemma engine_inv_run:
  "engine_inv bw \<Longrightarrow> run bw es = Next bw' \<Longrightarrow> engine_inv bw'"
proof (induction es arbitrary: bw)
  case Nil
  then show ?case by simp
next
  case (Cons e es)
  from Cons.prems(2) obtain bw1 where s: "step e bw = Next bw1" and r: "run bw1 es = Next bw'"
    by (auto split: go.splits)
  from engine_inv_step[OF Cons.prems(1) s] Cons.IH r show ?case by blast
qed

lemma engine_inv_new:
  "newBaseWorker c opts = Next bw \<Longrightarrow> engine_inv bw"
  by (auto simp: newBaseWorker_def engine_inv_def lifecycle_inv_def permits_inv_def wg_inv_def
      in_circulation_def checked_out_def preloaded_def live_def split: if_splits)

lemma executeD:
  assumes "execute c opts es = Next bw"
  obtains bw0 where "newBaseWorker c opts = Next bw0" and "run bw0 es = Next bw"
  using assms by (auto simp: execute_def split: go.splits)

lemma engine_inv_execute:
  assumes "execute c opts es = Next bw"
  shows "engine_inv bw"
  using assms by (elim executeD) (blast intro: engine_inv_run engine_inv_new)

text \<open>No step changes the options or the poll limiter.\<close>

lemma config_step:
  "holds_next (\<lambda>bw'. options bw' = options bw \<and> pollLimiter bw' = pollLimiter bw) (step e bw)"
  by (cases e) (simp_all add: step_defs split: state_splits)

lemma config_run:
  "run bw es = Next bw' \<Longrightarrow> options bw' = options bw \<and> pollLimiter bw' = pollLimiter bw"
proof (induction es arbitrary: bw)
  case Nil
  then show ?case by simp
next
  case (Cons e es)
  from Cons.prems obtain bw1 where s: "step e bw = Next bw1" and r: "run bw1 es = Next bw'"
    by (auto split: go.splits)
  from config_step[of bw e] s have "options bw1 = options bw \<and> pollLimiter bw1 = pollLimiter bw"
    by simp
  with Cons.IH[OF r] show ?case by simp
qed

lemma config_execute:
  assumes "execute c opts es = Next bw"
  shows "options bw = opts \<and> pollLimiter bw = (0 < pollerRate opts)"
proof -
  from assms obtain bw0 where n: "newBaseWorker c opts = Next bw0" and r: "run bw0 es = Next bw"
    by (rule executeD)
  from n have "options bw0 = opts \<and> pollLimiter bw0 = (0 < pollerRate opts)"
    by (auto simp: newBaseWorker_def split: if_splits)
  with config_run[OF r] show ?thesis by simp
qed


subsection \<open>Schedules and observations\<close>

lemma run_append:
  "run bw (es @ es') =
     (case run bw es of Next bw1 \<Rightarrow> run bw1 es' | Panic p \<Rightarrow> Panic p | Blocked \<Rightarrow> Blocked)"
  by (induction es arbitrary: bw) (simp_all split: go.splits)

lemma execute_snoc:
  assumes "execute c opts es = Next bw"
  shows "execute c opts (es @ [e]) = step e bw"
  using assms by (auto simp: execute_def run_append split: go.splits)

lemma observe_Next: "r = Next bw \<Longrightarrow> observe f r = Some v \<Longrightarrow> f bw = v"
  by (simp add: observe_def)

subsection \<open>Permits are bounded and conserved\<close>

lemma nth_le_sum_list:
  fixes f :: "'a \<Rightarrow> int"
  assumes "\<And>x. 0 \<le> f x" and "i < length xs"
  shows "f (xs ! i) \<le> sum_list (map f xs)"
  using assms(2)
proof (induction xs arbitrary: i)
  case Nil
  then show ?case by simp
next
  case (Cons x xs)
  have nn: "0 \<le> sum_list (map f xs)" by (rule sum_list_nonneg) (auto simp: assms(1))
  show ?case
  proof (cases i)
    case 0
    with nn show ?thesis by simp
  next
    case (Suc j)
    with Cons.prems have "j < length xs" by simp
    from Cons.IH[OF this] Suc assms(1)[of x] show ?thesis by simp
  qed
qed

lemma held_poller_nonneg: "0 \<le> held_poller p"
  by (cases p) simp_all

lemma held_processor_nonneg: "0 \<le> held_processor x"
  by (cases x) simp_all

lemma held_dispatcher_nonneg: "0 \<le> held_dispatcher d"
  by (cases d rule: held_dispatcher.cases) simp_all

lemma held_pollers_nonneg: "0 \<le> sum_list (map held_poller ps)"
  by (rule sum_list_nonneg) (auto simp: held_poller_nonneg)

lemma held_processors_nonneg: "0 \<le> sum_list (map held_processor xs)"
  by (rule sum_list_nonneg) (auto simp: held_processor_nonneg)

lemma checked_out_nonneg: "0 \<le> checked_out bw"
  using held_pollers_nonneg[of "pollers bw"] held_processors_nonneg[of "processors bw"]
    held_dispatcher_nonneg[of "dispatcher bw"]
  by (simp add: checked_out_def)

lemma processor_holds_permit:
  assumes "i < length (processors bw)"
  shows "held_processor (processors bw ! i) \<le> checked_out bw"
  using nth_le_sum_list[of held_processor i "processors bw", OF held_processor_nonneg assms]
    held_pollers_nonneg[of "pollers bw"] held_dispatcher_nonneg[of "dispatcher bw"]
  by (simp add: checked_out_def)

lemma poller_holds_permit:
  assumes "i < length (pollers bw)"
  shows "held_poller (pollers bw ! i) \<le> checked_out bw"
  using nth_le_sum_list[of held_poller i "pollers bw", OF held_poller_nonneg assms]
    held_processors_nonneg[of "processors bw"] held_dispatcher_nonneg[of "dispatcher bw"]
  by (simp add: checked_out_def)

lemma room_for_held_permit:
  assumes "permits_inv bw" and "1 \<le> checked_out bw"
  shows "pollerRequestCh bw < maxConcurrentTask (options bw)"
  using assms by (simp add: permits_inv_def in_circulation_def)

lemma run_Cons_Next:
  assumes "run bw (e # es) = Next bw'"
  obtains bw1 where "step e bw = Next bw1" and "run bw1 es = Next bw'"
  using assms by (auto split: go.splits)

lemma preloaded_step:
  assumes "lifecycle_inv bw" and "permits_inv bw"
  shows "holds_next (\<lambda>bw'. preloaded bw' = preloaded bw + (if e = DispPreloadSend then 1 else 0))
           (step e bw)"
  using assms
  apply (cases e)
  apply (simp_all add: lifecycle_inv_def permits_inv_def preloaded_def step_defs
      split: state_splits)
  done

lemma preloaded_run:
  "engine_inv bw \<Longrightarrow> run bw es = Next bw' \<Longrightarrow>
     preloaded bw' = preloaded bw + int (count_list es DispPreloadSend)"
proof (induction es arbitrary: bw)
  case Nil
  then show ?case by simp
next
  case (Cons e es)
  from Cons.prems(2) obtain bw1 where s: "step e bw = Next bw1" and r: "run bw1 es = Next bw'"
    by (rule run_Cons_Next)
  have inv1: "engine_inv bw1" by (rule engine_inv_step[OF Cons.prems(1) s])
  from preloaded_step[of bw e] Cons.prems(1) s
  have "preloaded bw1 = preloaded bw + (if e = DispPreloadSend then 1 else 0)"
    by (simp add: engine_inv_def)
  with Cons.IH[OF inv1 r] show ?case by simp
qed

lemma preloaded_execute:
  assumes "execute c opts es = Next bw"
  shows "preloaded bw = int (count_list es DispPreloadSend)"
proof -
  from assms obtain bw0 where n: "newBaseWorker c opts = Next bw0" and r: "run bw0 es = Next bw"
    by (rule executeD)
  from n have "preloaded bw0 = 0"
    by (auto simp: newBaseWorker_def preloaded_def split: if_splits)
  with preloaded_run[OF engine_inv_new[OF n] r] show ?thesis by simp
qed

lemma preload_done_preloaded:
  "preload_done bw \<Longrightarrow> preloaded bw = maxConcurrentTask (options bw)"
  by (auto simp: preload_done_def preloaded_def split: option.splits dispatcher.splits)

lemmas eval_defs = execute_def newBaseWorker_def observe_def step_defs one_poller_def
  rate_limited_poller_def permit_taken_def polled_one_def processing_one_def two_polled_def
  stopping_one_def graceful_stop_def processed_then_stopping_def in_circulation_def checked_out_def preloaded_def
  preload_done_def polled_pending_def poller_at_def processor_at_def ready_pollers_def

text \<open>
  C1. In every reachable state of a worker with \<open>maxConcurrentTask = N\<close>: at
  most \<open>N\<close> permits are outside the permit channel, and at most \<open>N\<close> are in circulation;
  the pre-load loop has sent at most \<open>N\<close> permits, exactly \<open>N\<close> once it is over, and none
  of its sends blocks; as long as the stop channel is open the permits in circulation are
  exactly those pre-loaded so far, hence \<open>N\<close> from the end of the pre-load on. Nothing is
  said of the count after the stop channel is closed, except that it stays at most \<open>N\<close>.
\<close>

theorem permits_bounded_conserved_until_stop:
  assumes "execute c opts es = Next bw"
  shows "0 \<le> checked_out bw \<and> checked_out bw \<le> maxConcurrentTask opts
       \<and> in_circulation bw \<le> maxConcurrentTask opts
       \<and> int (count_list es DispPreloadSend) \<le> maxConcurrentTask opts
       \<and> (preload_done bw \<longrightarrow> int (count_list es DispPreloadSend) = maxConcurrentTask opts)
       \<and> (dispatcher bw = Some (DispPreload i) \<and> i < maxConcurrentTask opts
            \<longrightarrow> step DispPreloadSend bw \<noteq> Blocked)
       \<and> (stopCh bw \<noteq> Closed
            \<longrightarrow> in_circulation bw = int (count_list es DispPreloadSend))
       \<and> (stopCh bw \<noteq> Closed \<and> preload_done bw
            \<longrightarrow> in_circulation bw = maxConcurrentTask opts)"
proof -
  have inv: "permits_inv bw"
    using engine_inv_execute[OF assms] by (simp add: engine_inv_def)
  have opts: "options bw = opts" using config_execute[OF assms] by simp
  have pre: "preloaded bw = int (count_list es DispPreloadSend)"
    by (rule preloaded_execute[OF assms])
  have nn: "0 \<le> checked_out bw" by (rule checked_out_nonneg)
  have a: "checked_out bw \<le> maxConcurrentTask opts"
    using inv opts by (simp add: permits_inv_def in_circulation_def)
  have b: "in_circulation bw \<le> maxConcurrentTask opts"
    using inv opts by (simp add: permits_inv_def)
  have c: "int (count_list es DispPreloadSend) \<le> maxConcurrentTask opts"
    using inv opts pre by (simp add: permits_inv_def)
  have d: "preload_done bw \<longrightarrow> int (count_list es DispPreloadSend) = maxConcurrentTask opts"
    using preload_done_preloaded[of bw] opts pre by simp
  have e: "dispatcher bw = Some (DispPreload i) \<and> i < maxConcurrentTask opts
            \<longrightarrow> step DispPreloadSend bw \<noteq> Blocked"
    using inv opts nn by (auto simp: permits_inv_def in_circulation_def preloaded_def)
  have f: "stopCh bw \<noteq> Closed \<longrightarrow> in_circulation bw = int (count_list es DispPreloadSend)"
    using inv pre by (simp add: permits_inv_def)
  from nn a b c d e f show ?thesis by simp
qed


theorem permits_bounded_conserved_until_stop_witness:
  "\<exists>bw0 bw. execute 2 (one_poller 1) [CallStart] = Next bw0
      \<and> dispatcher bw0 = Some (DispPreload 0) \<and> step DispPreloadSend bw0 \<noteq> Blocked
      \<and> execute 2 (one_poller 1) processing_one = Next bw
      \<and> checked_out bw = 1 \<and> in_circulation bw = 1 \<and> preload_done bw
      \<and> stopCh bw \<noteq> Closed \<and> count_list processing_one DispPreloadSend = 1"
proof -
  obtain bw0 where e0: "execute 2 (one_poller 1) [CallStart] = Next bw0"
    by (simp add: eval_defs)
  have d0: "dispatcher bw0 = Some (DispPreload 0)"
    by (rule observe_Next[OF e0]) (simp add: eval_defs)
  have "(0::int) < maxConcurrentTask (one_poller 1)" by (simp add: one_poller_def)
  with permits_bounded_conserved_until_stop[OF e0, of 0] d0
  have s0: "step DispPreloadSend bw0 \<noteq> Blocked" by blast
  obtain bw where e: "execute 2 (one_poller 1) processing_one = Next bw"
    by (simp add: eval_defs)
  have f1: "preload_done bw"
    using observe_Next[OF e, of preload_done True] by (simp add: eval_defs)
  have f2: "stopCh bw \<noteq> Closed"
    using observe_Next[OF e, of stopCh Open] by (simp add: eval_defs)
  have f3: "checked_out bw = 1"
    by (rule observe_Next[OF e]) (simp add: eval_defs)
  note f = f1 f2 f3
  from permits_bounded_conserved_until_stop[OF e, of 0] f
  have g: "in_circulation bw = 1" "int (count_list processing_one DispPreloadSend) = 1"
    by (auto simp: one_poller_def simp del: step.simps)
  from e0 d0 s0 e f g show ?thesis by auto
qed

text \<open>
  The count is not constant for the life of the engine: when \<^verbatim>\<open>Stop\<close> closes the stop
  channel while the poller holds task 7 at the send to \<^verbatim>\<open>taskQueueCh\<close>, the poller
  takes the stop case of its \<^verbatim>\<open>select\<close>, the task is dropped and its permit is not
  returned. With \<open>N = 1\<close> no permit is left in circulation, after a finished pre-load.
\<close>

theorem permits_constant_counterexample:
  "observe in_circulation (execute 2 (one_poller 1) (polled_one @ [CallStop, PollerDrop 0]))
     = Some 0
   \<and> observe preload_done (execute 2 (one_poller 1) (polled_one @ [CallStop, PollerDrop 0]))
     = Some True
   \<and> maxConcurrentTask (one_poller 1) = 1"
  by (simp add: eval_defs)

subsection \<open>Returning a permit never blocks\<close>

text \<open>
  C7. In every reachable state, and so also once the engine has begun to stop, a processor
  that is at the send of its permit can complete the send: the channel has room, because
  the permits in circulation, the processor's own among them, are at most
  \<open>maxConcurrentTask\<close>, the capacity of the channel.
\<close>

theorem processor_permit_return_never_blocks:
  assumes "execute c opts es = Next bw" and "processor_at bw i = Some ProcRearm"
  shows "\<exists>bw'. step (ProcRearmSend i) bw = Next bw'
            \<and> pollerRequestCh bw' = pollerRequestCh bw + 1
            \<and> pollerRequestCh bw' \<le> maxConcurrentTask opts
            \<and> processor_at bw' i = Some ProcExit"
proof -
  from assms(2) have i: "i < length (processors bw)" and at: "processors bw ! i = ProcRearm"
    by simp_all
  have inv: "permits_inv bw"
    using engine_inv_execute[OF assms(1)] by (simp add: engine_inv_def)
  from processor_holds_permit[OF i] at have "1 \<le> checked_out bw" by simp
  from room_for_held_permit[OF inv this] have room: "pollerRequestCh bw < maxConcurrentTask (options bw)" .
  moreover have "options bw = opts" using config_execute[OF assms(1)] by simp
  ultimately show ?thesis using i at by (simp add: set_processor_def)
qed



theorem processor_permit_return_never_blocks_witness:
  "\<exists>bw bw'. execute 2 (one_poller 1)
               (processing_one @ [CallStop, StopCancelContext, ProcFinish 0 (Returned None)])
             = Next bw
      \<and> stopCh bw = Closed \<and> processor_at bw 0 = Some ProcRearm
      \<and> step (ProcRearmSend 0) bw = Next bw' \<and> pollerRequestCh bw' = 1"
proof -
  obtain bw where e: "execute 2 (one_poller 1)
      (processing_one @ [CallStop, StopCancelContext, ProcFinish 0 (Returned None)]) = Next bw"
    by (simp add: eval_defs)
  from e have p: "processor_at bw 0 = Some ProcRearm" and c: "stopCh bw = Closed"
    and n: "pollerRequestCh bw = 0"
    by (auto simp: eval_defs)
  from processor_permit_return_never_blocks[OF e p] obtain bw' where
    s: "step (ProcRearmSend 0) bw = Next bw'" and "pollerRequestCh bw' = pollerRequestCh bw + 1"
    by blast
  with n have "pollerRequestCh bw' = 1" by simp
  with e p c s show ?thesis by blast
qed

subsection \<open>Panics of the task processing are recovered and counted\<close>

lemma panic_counter_step:
  "holds_next
     (\<lambda>bw'. workerPanicCounter bw' = workerPanicCounter bw + (if panicked_non_nil e then 1 else 0))
     (step e bw)"
proof (cases e)
  case (ProcFinish i r)
  then show ?thesis
    by (cases r rule: recover.cases) (simp_all add: step_defs split: state_splits)
qed (simp_all add: step_defs split: state_splits)

lemma panic_counter_run:
  "run bw es = Next bw' \<Longrightarrow>
     workerPanicCounter bw' = workerPanicCounter bw + length (filter panicked_non_nil es)"
proof (induction es arbitrary: bw)
  case Nil
  then show ?case by simp
next
  case (Cons e es)
  from Cons.prems obtain bw1 where s: "step e bw = Next bw1" and r: "run bw1 es = Next bw'"
    by (rule run_Cons_Next)
  from panic_counter_step[of bw e] s
  have "workerPanicCounter bw1 = workerPanicCounter bw + (if panicked_non_nil e then 1 else 0)"
    by simp
  with Cons.IH[OF r] show ?case by simp
qed

lemma panic_counter_execute:
  assumes "execute c opts es = Next bw"
  shows "workerPanicCounter bw = length (filter panicked_non_nil es)"
proof -
  from assms obtain bw0 where n: "newBaseWorker c opts = Next bw0" and r: "run bw0 es = Next bw"
    by (rule executeD)
  from n have "workerPanicCounter bw0 = 0"
    by (auto simp: newBaseWorker_def split: if_splits)
  with panic_counter_run[OF r] show ?thesis by simp
qed

text \<open>
  C3. The panic counter equals the number of panics of \<^verbatim>\<open>ProcessTask\<close> with a value
  that is not nil, one for each. When \<^verbatim>\<open>ProcessTask\<close> panics in a running processor,
  with any value, the step yields a next state (the panic does not leave the processor):
  the counter goes up by one for a value that is not nil and stays for \<^verbatim>\<open>panic(nil)\<close>,
  the pollers, the dispatcher, the stop channel and the permit channel are as before, and
  for a polled task the send of the permit follows and succeeds, so that a poller can poll
  again; the processor of a task that was not polled returns at once.
\<close>

theorem panic_recovered_permit_returned_non_nil_counted:
  assumes "execute c opts es = Next bw" and "processor_at bw i = Some (ProcRun e)"
  shows "workerPanicCounter bw = length (filter panicked_non_nil es)
       \<and> (\<exists>bw'. step (ProcFinish i (Panicked v)) bw = Next bw'
             \<and> workerPanicCounter bw' = workerPanicCounter bw + (if v = NilValue then 0 else 1)
             \<and> pollers bw' = pollers bw \<and> dispatcher bw' = dispatcher bw
             \<and> stopCh bw' = stopCh bw \<and> caller bw' = caller bw
             \<and> pollerRequestCh bw' = pollerRequestCh bw
             \<and> (if isPolledTask e
                 then \<exists>bw''. step (ProcRearmSend i) bw' = Next bw''
                        \<and> pollerRequestCh bw'' = pollerRequestCh bw + 1
                        \<and> workerPanicCounter bw'' = workerPanicCounter bw'
                        \<and> processor_at bw'' i = Some ProcExit
                 else processor_at bw' i = Some ProcExit))"
proof -
  from assms(2) have i: "i < length (processors bw)" and at: "processors bw ! i = ProcRun e"
    by simp_all
  have cnt: "workerPanicCounter bw = length (filter panicked_non_nil es)"
    by (rule panic_counter_execute[OF assms(1)])
  have inv: "permits_inv bw"
    using engine_inv_execute[OF assms(1)] by (simp add: engine_inv_def)
  show ?thesis
  proof (cases "isPolledTask e")
    case False
    with i at cnt show ?thesis
      by (cases v) (simp_all add: step_defs processor_at_def)
  next
    case True
    with processor_holds_permit[OF i] at have "1 \<le> checked_out bw" by simp
    from room_for_held_permit[OF inv this]
    have "pollerRequestCh bw < maxConcurrentTask (options bw)" .
    with True i at cnt show ?thesis
      by (cases v) (simp_all add: step_defs processor_at_def)
  qed
qed

theorem panic_recovered_permit_returned_non_nil_counted_witness:
  "\<exists>bw bw' bw''. execute 2 (one_poller 1) processing_one = Next bw
      \<and> processor_at bw 0 = Some (ProcRun (PolledTask 7))
      \<and> workerPanicCounter bw = 0
      \<and> step (ProcFinish 0 (Panicked NonNilValue)) bw = Next bw'
      \<and> workerPanicCounter bw' = 1
      \<and> step (ProcRearmSend 0) bw' = Next bw'' \<and> pollerRequestCh bw'' = 1
      \<and> workerPanicCounter bw'' = 1"
proof -
  obtain bw where e: "execute 2 (one_poller 1) processing_one = Next bw"
    by (simp add: eval_defs)
  from e have p: "processor_at bw 0 = Some (ProcRun (PolledTask 7))"
    and n: "pollerRequestCh bw = 0" and m: "filter panicked_non_nil processing_one = []"
    by (auto simp: eval_defs)
  from panic_recovered_permit_returned_non_nil_counted[OF e p, of NonNilValue] m
  obtain bw' bw'' where
    z: "workerPanicCounter bw = 0"
    and s: "step (ProcFinish 0 (Panicked NonNilValue)) bw = Next bw'"
    and k: "workerPanicCounter bw' = workerPanicCounter bw + 1"
    and s': "step (ProcRearmSend 0) bw' = Next bw''"
    and k': "pollerRequestCh bw'' = pollerRequestCh bw + 1"
    and k'': "workerPanicCounter bw'' = workerPanicCounter bw'"
    by (auto simp del: step.simps)
  from z k have c1: "workerPanicCounter bw' = 1" by simp
  with k'' have c2: "workerPanicCounter bw'' = 1" by simp
  from n k' have "pollerRequestCh bw'' = 1" by simp
  with c1 c2 show ?thesis using e p z s s' by blast
qed

text \<open>
  A panic is not always counted: when \<^verbatim>\<open>ProcessTask\<close> panics with nil, \<^verbatim>\<open>recover()\<close>
  yields nil, and the deferred function of the processor of task 7 goes on to the send of
  the permit with the counter still at zero.
\<close>

theorem nil_panic_not_counted_counterexample:
  "observe workerPanicCounter
     (execute 2 (one_poller 1) (processing_one @ [ProcFinish 0 (Panicked NilValue)])) = Some 0
   \<and> length (filter panicked (processing_one @ [ProcFinish 0 (Panicked NilValue)])) = 1
   \<and> observe processors
       (execute 2 (one_poller 1) (processing_one @ [ProcFinish 0 (Panicked NilValue)]))
     = Some [ProcRearm]"
  by (simp add: eval_defs)

subsection \<open>Stopping\<close>

lemma live_poller_nonneg: "0 \<le> live_poller p"
  by (cases p) simp_all

lemma live_processor_nonneg: "0 \<le> live_processor x"
  by (cases x) simp_all

lemma live_dispatcher_nonneg: "0 \<le> live_dispatcher d"
  by (cases d rule: live_dispatcher.cases) simp_all

lemma live_poller_zero: "live_poller p = 0 \<longleftrightarrow> p = PollerExit"
  by (cases p) simp_all

lemma live_processor_zero: "live_processor x = 0 \<longleftrightarrow> x = ProcExit"
  by (cases x) simp_all

lemma live_dispatcher_zero: "live_dispatcher d = 0 \<longleftrightarrow> d = None \<or> d = Some DispExit"
  by (cases d rule: live_dispatcher.cases) simp_all

lemma live_zero:
  assumes "live bw = 0"
  shows "(\<forall>p\<in>set (pollers bw). p = PollerExit)
       \<and> (dispatcher bw = None \<or> dispatcher bw = Some DispExit)
       \<and> (\<forall>x\<in>set (processors bw). x = ProcExit)"
proof -
  let ?a = "sum_list (map live_poller (pollers bw))"
  let ?b = "live_dispatcher (dispatcher bw)"
  let ?c = "sum_list (map live_processor (processors bw))"
  have a: "0 \<le> ?a" by (rule sum_list_nonneg) (auto simp: live_poller_nonneg)
  have c: "0 \<le> ?c" by (rule sum_list_nonneg) (auto simp: live_processor_nonneg)
  have b: "0 \<le> ?b" by (rule live_dispatcher_nonneg)
  from assms a b c have z: "?a = 0" "?b = 0" "?c = 0" by (simp_all add: live_def)
  from z(1) have "\<forall>x\<in>set (map live_poller (pollers bw)). x = 0"
    by (subst (asm) sum_list_nonneg_eq_0_iff) (auto simp: live_poller_nonneg)
  then have p: "\<forall>p\<in>set (pollers bw). p = PollerExit" by (simp add: live_poller_zero)
  from z(3) have "\<forall>x\<in>set (map live_processor (processors bw)). x = 0"
    by (subst (asm) sum_list_nonneg_eq_0_iff) (auto simp: live_processor_nonneg)
  then have x: "\<forall>x\<in>set (processors bw). x = ProcExit" by (simp add: live_processor_zero)
  from z(2) have "dispatcher bw = None \<or> dispatcher bw = Some DispExit"
    by (simp add: live_dispatcher_zero)
  with p x show ?thesis by simp
qed

lemma sum_list_map_zero:
  fixes f :: "'a \<Rightarrow> int"
  shows "\<forall>x\<in>set xs. f x = 0 \<Longrightarrow> sum_list (map f xs) = 0"
  by (induction xs) simp_all

lemma all_exited_live:
  assumes "\<forall>p\<in>set (pollers bw). p = PollerExit" and "dispatcher bw = Some DispExit"
    and "\<forall>x\<in>set (processors bw). x = ProcExit"
  shows "live bw = 0"
proof -
  have "\<forall>p\<in>set (pollers bw). live_poller p = 0"
    using assms(1) by auto
  then have a: "sum_list (map live_poller (pollers bw)) = 0"
    by (rule sum_list_map_zero)
  have "\<forall>x\<in>set (processors bw). live_processor x = 0"
    using assms(3) by auto
  then have c: "sum_list (map live_processor (processors bw)) = 0"
    by (rule sum_list_map_zero)
  from a c assms(2) show ?thesis by (simp add: live_def)
qed

lemma ready_poller_bounds: "0 \<le> ready_poller p \<and> ready_poller p \<le> 1"
  by (cases p) simp_all

lemma ready_pollers_bounds:
  "0 \<le> ready_pollers bw \<and> ready_pollers bw \<le> int (length (pollers bw))"
  unfolding ready_pollers_def
proof (induction "pollers bw" arbitrary: bw)
  case Nil
  then show ?case by simp
next
  case (Cons p ps)
  have "0 \<le> sum_list (map ready_poller ps) \<and> sum_list (map ready_poller ps) \<le> int (length ps)"
    using Cons.hyps(1)[of "bw\<lparr>pollers := ps\<rparr>"] by simp
  with ready_poller_bounds[of p] Cons.hyps(2)[symmetric] show ?case by simp
qed

text \<open>
  Once the limiter context is cancelled, no poller of a worker with a poll limiter passes
  the limiter: the pollers that are past it can only become fewer, by one with each call
  of \<^verbatim>\<open>PollTask()\<close>.
\<close>

lemma ready_step:
  assumes "pollLimiter bw" and "limiterContext bw = Cancelled"
  shows "holds_next
           (\<lambda>bw'. pollLimiter bw' \<and> limiterContext bw' = Cancelled
                 \<and> ready_pollers bw' + (if invokes e then 1 else 0) = ready_pollers bw)
           (step e bw)"
  using assms
  apply (cases e)
  apply (simp_all add: ready_pollers_def step_defs sum_list_map_update sum_list_replicate_int
      split: state_splits)
  done

lemma ready_run:
  "pollLimiter bw \<Longrightarrow> limiterContext bw = Cancelled \<Longrightarrow> run bw es = Next bw' \<Longrightarrow>
     ready_pollers bw' + int (length (filter invokes es)) = ready_pollers bw"
proof (induction es arbitrary: bw)
  case Nil
  then show ?case by simp
next
  case (Cons e es)
  from Cons.prems(3) obtain bw1 where s: "step e bw = Next bw1" and r: "run bw1 es = Next bw'"
    by (rule run_Cons_Next)
  from ready_step[OF Cons.prems(1,2), of e] s
  have h: "pollLimiter bw1" "limiterContext bw1 = Cancelled"
    "ready_pollers bw1 + (if invokes e then 1 else 0) = ready_pollers bw"
    by simp_all
  from Cons.IH[OF h(1,2) r] h(3) show ?case by (cases "invokes e") simp_all
qed

text \<open>
  C2. In every reachable state of a worker with a poll limiter (\<open>pollerRate > 0\<close>) in
  which \<^verbatim>\<open>Stop\<close> has cancelled the limiter context: no poller can pass the poll limiter
  any more, and over every schedule that follows the \<^verbatim>\<open>PollTask\<close> calls that begin are
  exactly as many as the pollers that have left the state between the limiter and the
  call, so at most as many as were there at the cancellation, at most \<open>pollerCount\<close>.
  In every reachable state, \<^verbatim>\<open>Stop\<close> returns from its wait on the wait group exactly
  when it waits and every poller, the dispatcher and every processor has returned, so
  that no \<^verbatim>\<open>ProcessTask\<close> call is in flight; and while \<^verbatim>\<open>Stop\<close> waits, the timeout
  can end the wait, leaving the goroutines as they are.
\<close>

theorem stop_bounds_limited_polls_and_awaits_all:
  assumes "execute c opts es = Next bw"
  shows "(0 < pollerRate opts \<and> limiterContext bw = Cancelled
            \<longrightarrow> step (PollerPass i) bw = Blocked
                \<and> ready_pollers bw \<le> max 0 (pollerCount opts)
                \<and> (run bw es' = Next bw'
                      \<longrightarrow> int (length (filter invokes es')) + ready_pollers bw' = ready_pollers bw
                          \<and> 0 \<le> ready_pollers bw'))
       \<and> step StopAwaitDone bw =
            (if caller bw = StopAwaiting \<and> (\<forall>p\<in>set (pollers bw). p = PollerExit)
                \<and> dispatcher bw = Some DispExit \<and> (\<forall>x\<in>set (processors bw). x = ProcExit)
             then Next (Stop_return bw) else Blocked)
       \<and> pollers (Stop_return bw) = pollers bw
       \<and> dispatcher (Stop_return bw) = dispatcher bw
       \<and> processors (Stop_return bw) = processors bw
       \<and> caller (Stop_return bw) = CallerIdle
       \<and> (caller bw = StopAwaiting \<longrightarrow> step StopAwaitTimeout bw = Next (Stop_return bw))"
proof -
  have inv: "engine_inv bw" by (rule engine_inv_execute[OF assms])
  have cfg: "pollLimiter bw = (0 < pollerRate opts)" "options bw = opts"
    using config_execute[OF assms] by simp_all
  have a: "0 < pollerRate opts \<and> limiterContext bw = Cancelled
            \<longrightarrow> step (PollerPass i) bw = Blocked
                \<and> ready_pollers bw \<le> max 0 (pollerCount opts)
                \<and> (run bw es' = Next bw'
                      \<longrightarrow> int (length (filter invokes es')) + ready_pollers bw' = ready_pollers bw
                          \<and> 0 \<le> ready_pollers bw')"
  proof
    assume h: "0 < pollerRate opts \<and> limiterContext bw = Cancelled"
    with cfg have l: "pollLimiter bw" and x: "limiterContext bw = Cancelled" by simp_all
    from l x have p: "step (PollerPass i) bw = Blocked" by simp
    have "int (length (pollers bw)) \<le> max 0 (pollerCount opts)"
      using inv cfg(2) by (cases "isWorkerStarted bw") (auto simp: engine_inv_def lifecycle_inv_def)
    with ready_pollers_bounds[of bw] have b: "ready_pollers bw \<le> max 0 (pollerCount opts)"
      by linarith
    have r: "run bw es' = Next bw'
               \<longrightarrow> int (length (filter invokes es')) + ready_pollers bw' = ready_pollers bw
                   \<and> 0 \<le> ready_pollers bw'"
      using ready_run[OF l x, of es' bw'] ready_pollers_bounds[of bw']
      by (auto simp: algebra_simps)
    from p b r show "step (PollerPass i) bw = Blocked
                \<and> ready_pollers bw \<le> max 0 (pollerCount opts)
                \<and> (run bw es' = Next bw'
                      \<longrightarrow> int (length (filter invokes es')) + ready_pollers bw' = ready_pollers bw
                          \<and> 0 \<le> ready_pollers bw')"
      by blast
  qed
  have b: "step StopAwaitDone bw =
            (if caller bw = StopAwaiting \<and> (\<forall>p\<in>set (pollers bw). p = PollerExit)
                \<and> dispatcher bw = Some DispExit \<and> (\<forall>x\<in>set (processors bw). x = ProcExit)
             then Next (Stop_return bw) else Blocked)"
  proof (cases "caller bw = StopAwaiting")
    case False
    then show ?thesis by simp
  next
    case True
    from inv True have d: "dispatcher bw \<noteq> None"
      by (auto simp: engine_inv_def lifecycle_inv_def)
    from inv have w: "stopWG bw = live bw" by (simp add: engine_inv_def wg_inv_def)
    show ?thesis
    proof (cases "stopWG bw = 0")
      case z: True
      with w have "live bw = 0" by simp
      from live_zero[OF this] d True z show ?thesis by simp
    next
      case nz: False
      with w all_exited_live[of bw] True show ?thesis by auto
    qed
  qed
  have c: "caller bw = StopAwaiting \<longrightarrow> step StopAwaitTimeout bw = Next (Stop_return bw)"
    by simp
  have d: "pollers (Stop_return bw) = pollers bw" "dispatcher (Stop_return bw) = dispatcher bw"
    "processors (Stop_return bw) = processors bw" "caller (Stop_return bw) = CallerIdle"
    by (simp_all add: Stop_return_def)
  from a b c d show ?thesis by blast
qed

theorem stop_bounds_limited_polls_and_awaits_all_witness:
  "\<exists>bw1 bw2 bw3.
      execute 2 rate_limited_poller (permit_taken @ [PollerPass 0, CallStop, StopCancelContext])
        = Next bw1
      \<and> 0 < pollerRate rate_limited_poller \<and> limiterContext bw1 = Cancelled
      \<and> ready_pollers bw1 = 1 \<and> step (PollerPass 0) bw1 = Blocked
      \<and> run bw1 [PollerInvoke 0] = Next bw2 \<and> ready_pollers bw2 = 0
      \<and> caller bw1 = StopAwaiting \<and> step StopAwaitDone bw1 = Blocked
      \<and> step StopAwaitTimeout bw1 = Next (Stop_return bw1)
      \<and> execute 2 rate_limited_poller processed_then_stopping = Next bw3
      \<and> caller bw3 = StopAwaiting \<and> pollers bw3 = [PollerExit]
      \<and> dispatcher bw3 = Some DispExit \<and> processors bw3 = [ProcExit]
      \<and> step StopAwaitDone bw3 = Next (Stop_return bw3)"
proof -
  obtain bw1 where e1: "execute 2 rate_limited_poller
      (permit_taken @ [PollerPass 0, CallStop, StopCancelContext]) = Next bw1"
    by (simp add: eval_defs)
  have f1: "limiterContext bw1 = Cancelled" "caller bw1 = StopAwaiting" "ready_pollers bw1 = 1"
    "pollers bw1 = [PollerReady]"
    by (rule observe_Next[OF e1], simp add: eval_defs)+
  obtain bw2 where e2: "execute 2 rate_limited_poller
      ((permit_taken @ [PollerPass 0, CallStop, StopCancelContext]) @ [PollerInvoke 0]) = Next bw2"
    by (simp add: eval_defs)
  from e2 execute_snoc[OF e1, of "PollerInvoke 0"] have r2: "run bw1 [PollerInvoke 0] = Next bw2"
    by simp
  obtain bw3 where e3: "execute 2 rate_limited_poller processed_then_stopping = Next bw3"
    by (simp add: eval_defs)
  have f3: "caller bw3 = StopAwaiting" "pollers bw3 = [PollerExit]"
    "dispatcher bw3 = Some DispExit" "processors bw3 = [ProcExit]"
    by (rule observe_Next[OF e3], simp add: eval_defs)+
  have r: "0 < pollerRate rate_limited_poller" by (simp add: rate_limited_poller_def)
  from stop_bounds_limited_polls_and_awaits_all[OF e1, of 0 "[PollerInvoke 0]" bw2] r f1 r2
  have a: "step (PollerPass 0) bw1 = Blocked" "ready_pollers bw2 = 0"
    "step StopAwaitDone bw1 = Blocked" "step StopAwaitTimeout bw1 = Next (Stop_return bw1)"
    by (auto simp del: step.simps)
  from stop_bounds_limited_polls_and_awaits_all[OF e3] f3
  have b: "step StopAwaitDone bw3 = Next (Stop_return bw3)"
    by (auto simp del: step.simps)
  from e1 r f1 a r2 e3 f3 b show ?thesis by blast
qed

text \<open>
  \<^verbatim>\<open>PollTask\<close> calls begin after \<^verbatim>\<open>Stop\<close> has closed the stop channel and cancelled
  the limiter context. Without a poll limiter nothing stands between the permit and the
  poll, for a poller that took its permit before \<^verbatim>\<open>Stop\<close> was called. With a poll
  limiter, a poller that the limiter had let pass before \<^verbatim>\<open>Stop\<close> was called goes on
  to call \<^verbatim>\<open>PollTask\<close>.
\<close>

theorem poll_after_stop_counterexample:
  "observe stopCh (execute 2 (one_poller 1) (permit_taken @ [CallStop, StopCancelContext]))
     = Some Closed
   \<and> observe limiterContext
       (execute 2 (one_poller 1) (permit_taken @ [CallStop, StopCancelContext]))
     = Some Cancelled
   \<and> observe pollers
       (execute 2 (one_poller 1)
          (permit_taken @ [CallStop, StopCancelContext, PollerPass 0, PollerInvoke 0]))
     = Some [PollerPolling]
   \<and> observe limiterContext
       (execute 2 rate_limited_poller (permit_taken @ [PollerPass 0, CallStop, StopCancelContext]))
     = Some Cancelled
   \<and> observe pollers
       (execute 2 rate_limited_poller
          (permit_taken @ [PollerPass 0, CallStop, StopCancelContext, PollerInvoke 0]))
     = Some [PollerPolling]"
  by (simp add: eval_defs)

subsection \<open>The lifecycle flag\<close>

lemma started_closed_step:
  "holds_next (\<lambda>bw'. (isWorkerStarted bw \<longrightarrow> isWorkerStarted bw')
                  \<and> (stopCh bw = Closed \<longrightarrow> stopCh bw' = Closed)) (step e bw)"
  by (cases e) (simp_all add: step_defs split: state_splits)

lemma started_closed_run:
  "run bw es = Next bw' \<Longrightarrow>
     (isWorkerStarted bw \<longrightarrow> isWorkerStarted bw') \<and> (stopCh bw = Closed \<longrightarrow> stopCh bw' = Closed)"
proof (induction es arbitrary: bw)
  case Nil
  then show ?case by simp
next
  case (Cons e es)
  from Cons.prems obtain bw1 where s: "step e bw = Next bw1" and r: "run bw1 es = Next bw'"
    by (rule run_Cons_Next)
  from started_closed_step[of bw e] s Cons.IH[OF r] show ?case by simp
qed

lemma closed_started:
  assumes "execute c opts es = Next bw" and "stopCh bw = Closed"
  shows "isWorkerStarted bw"
  using engine_inv_execute[OF assms(1)] assms(2)
  by (auto simp: engine_inv_def lifecycle_inv_def)

text \<open>
  Two uses of the flag are sound: calling \<^verbatim>\<open>Start\<close> twice has the effect of calling
  it once, and calling \<^verbatim>\<open>Stop\<close> on a worker that was never started, once or twice in
  a row, leaves the worker as it was.
\<close>

lemma start_twice_stop_unstarted:
  "run bw [CallStart, CallStart] = run bw [CallStart]
   \<and> (\<not> isWorkerStarted bw \<and> caller bw = CallerIdle
        \<longrightarrow> run bw [CallStop] = Next bw \<and> run bw [CallStop, CallStop] = Next bw)"
  by (simp add: Start_def Stop_close_def)

text \<open>
  C4. Calling \<^verbatim>\<open>Stop\<close> twice in a row is not a no-op on a started worker. After
  \<^verbatim>\<open>Start\<close> and a first \<^verbatim>\<open>Stop\<close> that has returned with the wait group at zero,
  the flag is still set, so the second \<^verbatim>\<open>Stop\<close> passes the guard and closes the closed
  stop channel, which panics.
\<close>

theorem second_stop_panics:
  "observe caller (execute 2 (one_poller 1) graceful_stop) = Some CallerIdle
   \<and> observe stopWG (execute 2 (one_poller 1) graceful_stop) = Some 0
   \<and> execute 2 (one_poller 1) (graceful_stop @ [CallStop]) = Panic CloseOfClosedChannel"
  by (simp add: eval_defs)

text \<open>
  C10. Once \<^verbatim>\<open>Stop\<close> has closed the stop channel of a started worker and returned, the
  started flag is still set and \<^verbatim>\<open>Start\<close> changes nothing: it launches no poller and no
  dispatcher. In every state that follows, the flag stays set, the stop channel stays
  closed and \<^verbatim>\<open>Start\<close> stays without effect, so the worker cannot be started again.
\<close>

theorem start_after_stop_is_noop:
  assumes "execute c opts es = Next bw" and "stopCh bw = Closed" and "caller bw = CallerIdle"
  shows "isWorkerStarted bw \<and> step CallStart bw = Next bw
       \<and> (run bw es' = Next bw' \<longrightarrow> isWorkerStarted bw' \<and> stopCh bw' = Closed \<and> Start bw' = bw')"
proof -
  have s: "isWorkerStarted bw" by (rule closed_started[OF assms(1,2)])
  then have "step CallStart bw = Next bw" using assms(3) by (simp add: Start_def)
  moreover have "run bw es' = Next bw' \<longrightarrow> isWorkerStarted bw' \<and> stopCh bw' = Closed \<and> Start bw' = bw'"
    using started_closed_run[of bw es' bw'] s assms(2) by (simp add: Start_def)
  ultimately show ?thesis using s by blast
qed

theorem start_after_stop_is_noop_witness:
  "\<exists>bw. execute 2 (one_poller 1) graceful_stop = Next bw
      \<and> stopCh bw = Closed \<and> caller bw = CallerIdle \<and> isWorkerStarted bw
      \<and> step CallStart bw = Next bw \<and> run bw [CallStart] = Next bw \<and> Start bw = bw"
proof -
  obtain bw where e: "execute 2 (one_poller 1) graceful_stop = Next bw"
    by (simp add: eval_defs)
  from e have f: "stopCh bw = Closed" "caller bw = CallerIdle"
    by (auto simp: eval_defs)
  from start_after_stop_is_noop[OF e f, of "[CallStart]" bw]
  have a: "isWorkerStarted bw" "step CallStart bw = Next bw"
    and b: "run bw [CallStart] = Next bw \<longrightarrow> Start bw = bw"
    by blast+
  from a(2) have "run bw [CallStart] = Next bw" by simp
  with e f a b show ?thesis by blast
qed

subsection \<open>Poll failures\<close>

text \<open>
  C5. When \<^verbatim>\<open>PollTask\<close> returns an error and no task, the poller calls
  \<^verbatim>\<open>Failed()\<close> on the shared retrier if the error is classified as transient and
  \<^verbatim>\<open>Succeeded()\<close>, which resets the failure count, if it is not; in both cases it goes
  straight to the send of its permit, the send cannot block, and the permit is back in the
  channel with the poller in its \<^verbatim>\<open>select\<close> again. The delay is left to the
  \<^verbatim>\<open>Throttle()\<close> of the next poll: the back-off delay of the failure count after a
  transient error, none after another error.
\<close>

theorem poll_error_reported_and_permit_returned:
  assumes "execute c opts es = Next bw" and "poller_at bw i = Some PollerPolling"
  shows "\<exists>bw' bw''. step (PollerPollReturn i None (Some err)) bw = Next bw'
           \<and> retrier bw' = (if isServiceTransientError err then Failed (retrier bw)
                             else Succeeded (retrier bw))
           \<and> failureCount (retrier bw') =
                (if isServiceTransientError err then failureCount (retrier bw) + 1 else 0)
           \<and> Throttle (retrier bw') t =
                (if isServiceTransientError err
                 then ComputeNextDelay (policy (retrier bw)) t (failureCount (retrier bw))
                 else Delay 0)
           \<and> poller_at bw' i = Some PollerRearm
           \<and> pollerRequestCh bw' = pollerRequestCh bw
           \<and> step (PollerRearmSend i) bw' = Next bw''
           \<and> pollerRequestCh bw'' = pollerRequestCh bw + 1
           \<and> poller_at bw'' i = Some PollerSelect
           \<and> retrier bw'' = retrier bw'"
proof -
  from assms(2) have i: "i < length (pollers bw)" and at: "pollers bw ! i = PollerPolling"
    by simp_all
  have inv: "permits_inv bw"
    using engine_inv_execute[OF assms(1)] by (simp add: engine_inv_def)
  from poller_holds_permit[OF i] at have "1 \<le> checked_out bw" by simp
  from room_for_held_permit[OF inv this]
  have "pollerRequestCh bw < maxConcurrentTask (options bw)" .
  with i at show ?thesis
    by (cases err)
      (simp_all add: step_defs poller_at_def Failed_def Succeeded_def Throttle_def)
qed

theorem poll_error_reported_and_permit_returned_witness:
  "\<exists>bw bw1 bw2 bw3 bw4.
      execute 2 (one_poller 1) (permit_taken @ [PollerPass 0, PollerInvoke 0]) = Next bw
      \<and> poller_at bw 0 = Some PollerPolling
      \<and> step (PollerPollReturn 0 None (Some ServiceTransient)) bw = Next bw1
      \<and> failureCount (retrier bw1) = 1 \<and> poller_at bw1 0 = Some PollerRearm
      \<and> Throttle (retrier bw1) 0 = Delay (20 * Millisecond)
      \<and> step (PollerRearmSend 0) bw1 = Next bw2 \<and> pollerRequestCh bw2 = 1
      \<and> step (PollerPollReturn 0 None (Some NonTransient)) bw = Next bw3
      \<and> failureCount (retrier bw3) = 0 \<and> poller_at bw3 0 = Some PollerRearm
      \<and> Throttle (retrier bw3) 0 = Delay 0
      \<and> step (PollerRearmSend 0) bw3 = Next bw4 \<and> pollerRequestCh bw4 = 1"
proof -
  obtain bw where e:
    "execute 2 (one_poller 1) (permit_taken @ [PollerPass 0, PollerInvoke 0]) = Next bw"
    by (simp add: eval_defs)
  from e have p: "poller_at bw 0 = Some PollerPolling"
    and n: "pollerRequestCh bw = 0" "failureCount (retrier bw) = 0"
    by (auto simp: eval_defs NewConcurrentRetrier_def)
  have r: "retrier bw = NewConcurrentRetrier (createPollRetryPolicy 2)"
    by (rule observe_Next[OF e]) (simp add: eval_defs)
  have d: "ComputeNextDelay (policy (retrier bw)) 0 0 = Delay (20 * Millisecond)"
    unfolding r
    by (simp add: NewConcurrentRetrier_def createPollRetryPolicy_def SetExpirationInterval_def
        SetMaximumInterval_def NewExponentialRetryPolicy_def ComputeNextDelay_def NoInterval_def
        retryPollOperationMaxInterval_def retryPollOperationInitialInterval_def
        Second_def Millisecond_def)
  from poll_error_reported_and_permit_returned[OF e p, of ServiceTransient 0] n d
  obtain bw1 bw2 where a:
    "step (PollerPollReturn 0 None (Some ServiceTransient)) bw = Next bw1"
    "failureCount (retrier bw1) = 1" "poller_at bw1 0 = Some PollerRearm"
    "Throttle (retrier bw1) 0 = Delay (20 * Millisecond)"
    "step (PollerRearmSend 0) bw1 = Next bw2" "pollerRequestCh bw2 = 1"
    by (auto simp del: step.simps)
  from poll_error_reported_and_permit_returned[OF e p, of NonTransient 0] n
  obtain bw3 bw4 where b:
    "step (PollerPollReturn 0 None (Some NonTransient)) bw = Next bw3"
    "failureCount (retrier bw3) = 0" "poller_at bw3 0 = Some PollerRearm"
    "Throttle (retrier bw3) 0 = Delay 0"
    "step (PollerRearmSend 0) bw3 = Next bw4" "pollerRequestCh bw4 = 1"
    by (auto simp del: step.simps)
  from e p a b show ?thesis by blast
qed

text \<open>
  After a transient error the poller re-arms at once, as after any other error: its very
  next step puts the permit back into the channel.
\<close>

theorem transient_error_rearms_counterexample:
  "observe pollers
     (execute 2 (one_poller 1)
        (permit_taken @ [PollerPass 0, PollerInvoke 0, PollerPollReturn 0 None (Some ServiceTransient)]))
     = Some [PollerRearm]
   \<and> observe pollerRequestCh
       (execute 2 (one_poller 1)
          (permit_taken @ [PollerPass 0, PollerInvoke 0, PollerPollReturn 0 None (Some ServiceTransient)]))
     = Some 0
   \<and> observe pollerRequestCh
       (execute 2 (one_poller 1)
          (permit_taken @ [PollerPass 0, PollerInvoke 0, PollerPollReturn 0 None (Some ServiceTransient),
                           PollerRearmSend 0]))
     = Some 1
   \<and> observe pollers
       (execute 2 (one_poller 1)
          (permit_taken @ [PollerPass 0, PollerInvoke 0, PollerPollReturn 0 None (Some ServiceTransient),
                           PollerRearmSend 0]))
     = Some [PollerSelect]"
  by (simp add: eval_defs)

subsection \<open>Polled tasks that wait for a processor\<close>

lemma pending_pollers_le_length: "sum_list (map pending_poller ps) \<le> int (length ps)"
proof (induction ps)
  case Nil
  then show ?case by simp
next
  case (Cons p ps)
  have "pending_poller p \<le> 1" by (cases p) simp_all
  with Cons show ?case by simp
qed

lemma poller_send_step:
  assumes "i < length (pollers bw)" and "pollers bw ! i = PollerSend t"
  shows "holds_next (\<lambda>bw'. pollers bw' ! i = PollerSend t
            \<or> (e = PollerHandoff i \<and> dispatcher bw = Some DispSelect
                \<and> dispatcher bw' = Some (DispLimit t) \<and> pollers bw' ! i = PollerSelect)
            \<or> (e = PollerDrop i \<and> stopCh bw = Closed \<and> pollers bw' ! i = PollerSelect))
           (step e bw)"
  using assms
  apply (cases e)
  apply (simp_all add: step_defs nth_list_update nth_append split: state_splits)
  done

text \<open>
  C8. A poller that holds a polled task at the send to the unbuffered
  \<^verbatim>\<open>taskQueueCh\<close> keeps it through every step of the engine, except the one in which
  the dispatcher, in its \<^verbatim>\<open>select\<close>, accepts the task, and the one in which the poller
  takes the stop case, with the stop channel closed, and drops it. So the pollers hold at
  most \<open>pollerCount\<close> such tasks, and the polled tasks for which no processor has been
  spawned yet, which include the one that the dispatcher holds in the task limiter, are
  at most \<open>pollerCount + 1\<close>.
\<close>

theorem polled_tasks_pending_bounded:
  assumes "execute c opts es = Next bw"
  shows "sum_list (map pending_poller (pollers bw)) \<le> max 0 (pollerCount opts)
       \<and> polled_pending bw \<le> max 0 (pollerCount opts) + 1
       \<and> (poller_at bw i = Some (PollerSend t) \<and> step e bw = Next bw'
            \<longrightarrow> poller_at bw' i = Some (PollerSend t)
                \<or> (e = PollerHandoff i \<and> dispatcher bw = Some DispSelect
                    \<and> dispatcher bw' = Some (DispLimit t)
                    \<and> poller_at bw' i = Some PollerSelect)
                \<or> (e = PollerDrop i \<and> stopCh bw = Closed
                    \<and> poller_at bw' i = Some PollerSelect))"
proof -
  have inv: "lifecycle_inv bw"
    using engine_inv_execute[OF assms] by (simp add: engine_inv_def)
  have opts: "options bw = opts" using config_execute[OF assms] by simp
  have len: "int (length (pollers bw)) \<le> max 0 (pollerCount opts)"
    using inv opts by (cases "isWorkerStarted bw") (auto simp: lifecycle_inv_def)
  have a: "sum_list (map pending_poller (pollers bw)) \<le> max 0 (pollerCount opts)"
    using pending_pollers_le_length[of "pollers bw"] len by linarith
  have "held_dispatcher (dispatcher bw) \<le> 1"
    by (cases "dispatcher bw" rule: held_dispatcher.cases) simp_all
  with a have b: "polled_pending bw \<le> max 0 (pollerCount opts) + 1"
    by (simp add: polled_pending_def)
  have c: "poller_at bw i = Some (PollerSend t) \<and> step e bw = Next bw'
            \<longrightarrow> poller_at bw' i = Some (PollerSend t)
                \<or> (e = PollerHandoff i \<and> dispatcher bw = Some DispSelect
                    \<and> dispatcher bw' = Some (DispLimit t)
                    \<and> poller_at bw' i = Some PollerSelect)
                \<or> (e = PollerDrop i \<and> stopCh bw = Closed
                    \<and> poller_at bw' i = Some PollerSelect)"
  proof
    assume h: "poller_at bw i = Some (PollerSend t) \<and> step e bw = Next bw'"
    then have i: "i < length (pollers bw)" and at: "pollers bw ! i = PollerSend t"
      and s: "step e bw = Next bw'" by simp_all
    have "lifecycle_inv bw'"
      using lifecycle_inv_step[OF inv, of e] s by simp
    moreover have "options bw' = options bw" using config_step[of bw e] s by simp
    moreover have "isWorkerStarted bw" using inv i by (auto simp: lifecycle_inv_def)
    then have "isWorkerStarted bw'" using started_closed_step[of bw e] s by simp
    ultimately have "length (pollers bw') = length (pollers bw)"
      using inv \<open>isWorkerStarted bw\<close> by (simp add: lifecycle_inv_def)
    with i have i': "i < length (pollers bw')" by simp
    from poller_send_step[OF i at, of e] s i'
    show "poller_at bw' i = Some (PollerSend t)
                \<or> (e = PollerHandoff i \<and> dispatcher bw = Some DispSelect
                    \<and> dispatcher bw' = Some (DispLimit t)
                    \<and> poller_at bw' i = Some PollerSelect)
                \<or> (e = PollerDrop i \<and> stopCh bw = Closed
                    \<and> poller_at bw' i = Some PollerSelect)"
      by simp
  qed
  from a b c show ?thesis by blast
qed

theorem polled_tasks_pending_bounded_witness:
  "\<exists>bw bw1 bw2.
      execute 2 (one_poller 1) polled_one = Next bw
      \<and> poller_at bw 0 = Some (PollerSend 7)
      \<and> step (PollerHandoff 0) bw = Next bw1
      \<and> dispatcher bw1 = Some (DispLimit 7) \<and> poller_at bw1 0 = Some PollerSelect
      \<and> execute 2 (one_poller 2) two_polled = Next bw2
      \<and> polled_pending bw2 = 2
      \<and> polled_pending bw2 \<le> max 0 (pollerCount (one_poller 2)) + 1"
proof -
  obtain bw where e: "execute 2 (one_poller 1) polled_one = Next bw"
    by (simp add: eval_defs)
  from e have p: "poller_at bw 0 = Some (PollerSend 7)"
    by (auto simp: eval_defs)
  obtain bw1 where e1: "execute 2 (one_poller 1) (polled_one @ [PollerHandoff 0]) = Next bw1"
    by (simp add: eval_defs)
  from e1 execute_snoc[OF e, of "PollerHandoff 0"]
  have s: "step (PollerHandoff 0) bw = Next bw1" by simp
  from e1 have q: "poller_at bw1 0 = Some PollerSelect"
    by (auto simp: eval_defs)
  obtain bw2 where e2: "execute 2 (one_poller 2) two_polled = Next bw2"
    by (simp add: eval_defs)
  have n: "polled_pending bw2 = 2"
    by (rule observe_Next[OF e2]) (simp add: eval_defs)
  from polled_tasks_pending_bounded[OF e, of 0 7 "PollerHandoff 0" bw1] p s q
  have a: "dispatcher bw1 = Some (DispLimit 7)" by (auto simp del: step.simps)
  from polled_tasks_pending_bounded[OF e2]
  have b: "polled_pending bw2 \<le> max 0 (pollerCount (one_poller 2)) + 1" by blast
  from e p s a q e2 n b show ?thesis by blast
qed

text \<open>
  With one poller and two permits, two polled tasks wait for a processor: task 7 with the
  dispatcher, in the task limiter, and task 8 with the poller.
\<close>

theorem pending_exceeds_poller_count_counterexample:
  "observe polled_pending (execute 2 (one_poller 2) two_polled) = Some 2
   \<and> observe pollers (execute 2 (one_poller 2) two_polled) = Some [PollerSend 8]
   \<and> observe dispatcher (execute 2 (one_poller 2) two_polled) = Some (Some (DispLimit 7))
   \<and> observe processors (execute 2 (one_poller 2) two_polled) = Some []
   \<and> pollerCount (one_poller 2) = 1"
  by (simp add: eval_defs)

subsection \<open>The task limiter\<close>





end
